theory Spec2Isabelle
  imports Main
begin

section \<open>Data model (AgentSidebar.jsx, useAgentSessions)\<close>

text \<open>
  Message and session ids are made by \<^verbatim>\<open>createMessage\<close> and
  \<^verbatim>\<open>handleCreateSession\<close> from \<^verbatim>\<open>Date.now()\<close> and
  \<^verbatim>\<open>Math.random()\<close>. A message id is modelled as a natural number (the
  JavaScript value is the non-empty, hence truthy, string \<^verbatim>\<open>msg-...\<close>); session
  ids and tool call ids stay strings, because the source concatenates them into keys. A
  reference that may be \<^verbatim>\<open>null\<close> or \<^verbatim>\<open>undefined\<close> is an option.
  Time stamps are natural numbers.
\<close>

type_synonym msg_id = nat
type_synonym req_id = nat

datatype role = RUser | RAssistant | RTool | RSystem

datatype kind = KText | KThought | KTool

record message =
  msg_id :: msg_id
  role :: role
  kind :: kind
  content :: string
  summary :: "string option"
  anchorId :: "msg_id option"
  createdAt :: nat

record session =
  sess_id :: string
  name :: string
  agentId :: string
  agentLabel :: string
  model :: string
  status :: "string option"
  intent :: "string option"
  messages :: "message list"
  sessCreatedAt :: nat
  updatedAt :: nat
  autoTitle :: bool

text \<open>
  The second argument of \<^verbatim>\<open>updateMessageContent\<close> is either a function over the
  previous content or a plain value (\<^verbatim>\<open>typeof updater === 'function'\<close>).
\<close>

datatype updater = Fn "string \<Rightarrow> string" | Val string

section \<open>Session store mutators (useAgentSessions)\<close>

text \<open>
  \<^verbatim>\<open>updateSession\<close> maps over the session list; the session whose id matches is
  merged with the update and stamped with \<^verbatim>\<open>Date.now()\<close>, here the argument
  \<open>now\<close>. An update object and an updater function are both a function on the session
  (\<^verbatim>\<open>{ ...session, ...updated }\<close>).
\<close>

definition updateSession ::
  "string \<Rightarrow> (session \<Rightarrow> session) \<Rightarrow> nat \<Rightarrow> session list \<Rightarrow> session list" where
  "updateSession sessionId upd now prev =
     map (\<lambda>s. if sess_id s \<noteq> sessionId then s else (upd s)\<lparr>updatedAt := now\<rparr>) prev"

definition appendMessages ::
  "string \<Rightarrow> message list \<Rightarrow> nat \<Rightarrow> session list \<Rightarrow> session list" where
  "appendMessages sessionId msgs now prev =
     updateSession sessionId (\<lambda>s. s\<lparr>messages := messages s @ msgs\<rparr>) now prev"

definition applyUpdater :: "updater \<Rightarrow> string \<Rightarrow> string" where
  "applyUpdater u prevContent = (case u of Fn f \<Rightarrow> f prevContent | Val v \<Rightarrow> v)"

definition updateMessageContent ::
  "string \<Rightarrow> msg_id \<Rightarrow> updater \<Rightarrow> nat \<Rightarrow> session list \<Rightarrow> session list" where
  "updateMessageContent sessionId messageId u now prev =
     updateSession sessionId
       (\<lambda>s. s\<lparr>messages :=
          map (\<lambda>m. if msg_id m \<noteq> messageId then m
                    else m\<lparr>content := applyUpdater u (content m)\<rparr>) (messages s)\<rparr>)
       now prev"

definition updateMessageSummary ::
  "string \<Rightarrow> msg_id \<Rightarrow> string \<Rightarrow> nat \<Rightarrow> session list \<Rightarrow> session list" where
  "updateMessageSummary sessionId messageId sm now prev =
     updateSession sessionId
       (\<lambda>s. s\<lparr>messages :=
          map (\<lambda>m. if msg_id m \<noteq> messageId then m else m\<lparr>summary := Some sm\<rparr>)
            (messages s)\<rparr>)
       now prev"

text \<open>\<^verbatim>\<open>Array.prototype.findIndex\<close>: the first index that satisfies the test, or -1.\<close>

fun findIndex :: "('a \<Rightarrow> bool) \<Rightarrow> 'a list \<Rightarrow> int" where
  "findIndex P [] = -1"
| "findIndex P (x # xs) =
     (if P x then 0 else (let i = findIndex P xs in if i < 0 then -1 else i + 1))"

text \<open>
  \<^verbatim>\<open>arr.splice(start, 0, item)\<close> on a copy, for \<open>0 \<le> start\<close>: a start beyond the
  length is clamped to the length, as \<open>take\<close> and \<open>drop\<close> do.
\<close>

definition spliceInsert :: "nat \<Rightarrow> 'a \<Rightarrow> 'a list \<Rightarrow> 'a list" where
  "spliceInsert start item xs = take start xs @ item # drop start xs"

definition insertInto :: "msg_id \<Rightarrow> message \<Rightarrow> message list \<Rightarrow> message list" where
  "insertInto afterId m msgs =
     (let index = findIndex (\<lambda>item. msg_id item = afterId) msgs
      in if index < 0 then msgs @ [m] else spliceInsert (nat (index + 1)) m msgs)"

definition insertMessageAfter ::
  "string \<Rightarrow> msg_id \<Rightarrow> message \<Rightarrow> nat \<Rightarrow> session list \<Rightarrow> session list" where
  "insertMessageAfter sessionId afterId m now prev =
     updateSession sessionId (\<lambda>s. s\<lparr>messages := insertInto afterId m (messages s)\<rparr>) now prev"

section \<open>Conversation context (AgentSidebar.jsx, buildModelMessages)\<close>

definition MAX_CONTEXT_MESSAGES :: nat where
  "MAX_CONTEXT_MESSAGES = 12"

text \<open>\<^verbatim>\<open>parts.join(sep)\<close> on strings.\<close>

fun join :: "string \<Rightarrow> string list \<Rightarrow> string" where
  "join sep [] = []"
| "join sep [x] = x"
| "join sep (x # y # ys) = x @ sep @ join sep (y # ys)"

definition SYSTEM_PROMPT :: string where
  "SYSTEM_PROMPT = join [CHR 0x0A]
     [''You are OpenContext Agent.'',
      ''Help the user with their requests using the selected coding agent.'',
      ''Be concise and action-oriented. Ask for missing details before acting.'',
      ''When you need to run OpenContext CLI, include a single line: OC_ACTION: ''
        @ ''<command args> (do not include '' @ [CHR 0x22] @ ''oc'' @ [CHR 0x22] @ '').'']"

text \<open>\<^verbatim>\<open>xs.slice(-n)\<close>: the last \<open>n\<close> elements, all of them when there are fewer.\<close>

definition sliceLast :: "nat \<Rightarrow> 'a list \<Rightarrow> 'a list" where
  "sliceLast n xs = drop (length xs - n) xs"

record model_message =
  mm_role :: role
  mm_content :: string

definition isContextMessage :: "message \<Rightarrow> bool" where
  "isContextMessage m \<longleftrightarrow> kind m = KText \<and> (role m = RUser \<or> role m = RAssistant)"

definition toModelMessage :: "message \<Rightarrow> model_message" where
  "toModelMessage m = \<lparr>mm_role = role m, mm_content = content m\<rparr>"

definition systemContent :: "session option \<Rightarrow> string \<Rightarrow> string" where
  "systemContent sess extraSystem =
     (let label =
            (case sess of None \<Rightarrow> []
             | Some s \<Rightarrow> if agentLabel s \<noteq> [] then agentLabel s else agentId s);
          agentLine = (if label \<noteq> [] then ''Active coding agent: '' @ label else [])
      in join [CHR 0x0A, CHR 0x0A]
           (filter (\<lambda>x. x \<noteq> []) [SYSTEM_PROMPT, agentLine, extraSystem]))"

definition buildModelMessages ::
  "session option \<Rightarrow> message list \<Rightarrow> string \<Rightarrow> model_message list" where
  "buildModelMessages sess msgs extraSystem =
     \<lparr>mm_role = RSystem, mm_content = systemContent sess extraSystem\<rparr> #
     map toModelMessage (sliceLast MAX_CONTEXT_MESSAGES (filter isContextMessage msgs))"

section \<open>Strings and the action directive (AgentSidebar.jsx)\<close>

text \<open>
  A \<open>char\<close> stands for a UTF-16 code unit below 256. In that range the white space of
  \<^verbatim>\<open>\s\<close>, \<^verbatim>\<open>trim\<close> and \<^verbatim>\<open>trimEnd\<close> is tab, line feed, vertical tab, form
  feed, carriage return, space and the no-break space; the line terminators, which
  \<^verbatim>\<open>.\<close> does not match, are line feed and carriage return.
\<close>

definition isWhitespace :: "char \<Rightarrow> bool" where
  "isWhitespace c \<longleftrightarrow> c \<in> set [CHR 0x09, CHR 0x0A, CHR 0x0B, CHR 0x0C, CHR 0x0D, CHR 0x20, CHR 0xA0]"

definition isLineTerminator :: "char \<Rightarrow> bool" where
  "isLineTerminator c \<longleftrightarrow> c = CHR 0x0A \<or> c = CHR 0x0D"

definition trimStart :: "string \<Rightarrow> string" where
  "trimStart s = dropWhile isWhitespace s"

definition trimEnd :: "string \<Rightarrow> string" where
  "trimEnd s = rev (dropWhile isWhitespace (rev s))"

definition trim :: "string \<Rightarrow> string" where
  "trim s = trimStart (trimEnd s)"

text \<open>\<^verbatim>\<open>String(value || '').trim()\<close>\<close>

definition sanitizeText :: "string \<Rightarrow> string" where
  "sanitizeText v = trim v"

text \<open>\<^verbatim>\<open>text.split('\n')\<close>: the empty string gives one empty line.\<close>

fun splitLines :: "string \<Rightarrow> string list" where
  "splitLines [] = [[]]"
| "splitLines (c # cs) =
     (if c = CHR 0x0A then [] # splitLines cs
      else (case splitLines cs of [] \<Rightarrow> [[c]] | l # ls \<Rightarrow> (c # l) # ls))"

text \<open>
  Case folding of the \<^verbatim>\<open>i\<close> flag, as far as a match against the ASCII pattern text
  needs it: a lower-case ASCII letter folds to its capital, and a code unit of 128 or more
  never folds to an ASCII one.
\<close>

definition canon :: "char \<Rightarrow> char" where
  "canon c =
     (if (97::nat) \<le> of_char c \<and> of_char c \<le> (122::nat) then char_of (of_char c - (32::nat))
      else c)"

fun stripPrefixCI :: "string \<Rightarrow> string \<Rightarrow> string option" where
  "stripPrefixCI [] s = Some s"
| "stripPrefixCI (p # ps) [] = None"
| "stripPrefixCI (p # ps) (c # cs) = (if canon c = canon p then stripPrefixCI ps cs else None)"

text \<open>
  \<^verbatim>\<open>line.match(/^\s*OC_ACTION:\s*(.+)$/i)\<close>, returning the captured group. After the
  marker the greedy \<^verbatim>\<open>\s*\<close> takes all the white space when something follows it; the
  rest must then reach the end of the line without a line terminator. When only white
  space follows the marker, \<^verbatim>\<open>\s*\<close> gives one character back and the group is that
  last white space character, unless it is a line terminator.
\<close>

definition matchOcAction :: "string \<Rightarrow> string option" where
  "matchOcAction line =
     (case stripPrefixCI ''OC_ACTION:'' (dropWhile isWhitespace line) of
        None \<Rightarrow> None
      | Some rest \<Rightarrow>
          (let ws = takeWhile isWhitespace rest; tail = dropWhile isWhitespace rest
           in if tail \<noteq> [] then
                (if list_all (\<lambda>c. \<not> isLineTerminator c) tail then Some tail else None)
              else if ws \<noteq> [] \<and> \<not> isLineTerminator (last ws) then Some [last ws]
              else None))"

text \<open>
  The \<^verbatim>\<open>forEach\<close> of \<^verbatim>\<open>extractOcAction\<close>: the state is the action found so far
  (\<open>None\<close> for \<^verbatim>\<open>null\<close>) and the lines kept. An empty action is falsy, so a later
  directive may still replace it.
\<close>

definition falsy :: "string option \<Rightarrow> bool" where
  "falsy a \<longleftrightarrow> a = None \<or> a = Some []"

definition scanLine :: "string option \<times> string list \<Rightarrow> string \<Rightarrow> string option \<times> string list" where
  "scanLine acc line =
     (case acc of (action, kept) \<Rightarrow>
        (case matchOcAction line of
           Some cap \<Rightarrow> if falsy action then (Some (trim cap), kept) else (action, kept @ [line])
         | None \<Rightarrow> (action, kept @ [line])))"

text \<open>\<^verbatim>\<open>action.replace(/^oc\s+/i, '')\<close>\<close>

definition stripOcPrefix :: "string \<Rightarrow> string" where
  "stripOcPrefix a =
     (case stripPrefixCI ''oc'' a of
        None \<Rightarrow> a
      | Some rest \<Rightarrow> if rest \<noteq> [] \<and> isWhitespace (hd rest) then dropWhile isWhitespace rest else a)"

text \<open>
  \<^verbatim>\<open>splitCommandArgs\<close>: the global matcher
  \<^verbatim>\<open>/"([^"]*)"|'([^']*)'|(\S+)/g\<close> is run from left to right. At a quote character the
  quoted alternative is tried first and needs a closing quote; otherwise the run of
  characters that are not white space is taken. The pushed value is
  \<^verbatim>\<open>match[1] || match[2] || match[3]\<close>, which is \<^verbatim>\<open>undefined\<close> (\<open>None\<close>) for an
  empty quoted string.
\<close>

definition quoted :: "char \<Rightarrow> string \<Rightarrow> (string \<times> string) option" where
  "quoted q cs =
     (if q \<in> set cs then Some (takeWhile (\<lambda>c. c \<noteq> q) cs, tl (dropWhile (\<lambda>c. c \<noteq> q) cs))
      else None)"

function matchArgs :: "string \<Rightarrow> string option list" where
  "matchArgs [] = []"
| "matchArgs (c # cs) =
     (if (c = CHR 0x22 \<or> c = CHR 0x27) \<and> quoted c cs \<noteq> None then
        (case quoted c cs of
           Some (inner, rest) \<Rightarrow> (if inner = [] then None else Some inner) # matchArgs rest
         | None \<Rightarrow> [])
      else if isWhitespace c then matchArgs cs
      else Some (c # takeWhile (\<lambda>x. \<not> isWhitespace x) cs)
             # matchArgs (dropWhile (\<lambda>x. \<not> isWhitespace x) cs))"
  by pat_completeness auto
termination
proof (relation "measure length")
  show "wf (measure length)" by simp
next
  fix c cs x2 x y
  assume "(c = CHR 0x22 \<or> c = CHR 0x27) \<and> quoted c cs \<noteq> None"
    and "quoted c cs = Some x2" and "(x, y) = x2"
  then have "y = tl (dropWhile (\<lambda>a. a \<noteq> c) cs)"
    by (auto simp: quoted_def split: if_splits)
  moreover have "length (tl (dropWhile (\<lambda>a. a \<noteq> c) cs)) \<le> length cs"
  proof -
    have "length (tl (dropWhile (\<lambda>a. a \<noteq> c) cs)) \<le> length (dropWhile (\<lambda>a. a \<noteq> c) cs)"
      by simp
    also have "\<dots> \<le> length cs" by (rule length_dropWhile_le)
    finally show ?thesis .
  qed
  ultimately show "(y, c # cs) \<in> measure length" by simp
next
  fix c :: char and cs :: string
  show "(cs, c # cs) \<in> measure length" by simp
next
  fix c :: char and cs :: string
  have "length (dropWhile (\<lambda>x. \<not> isWhitespace x) cs) \<le> length cs"
    by (rule length_dropWhile_le)
  then show "(dropWhile (\<lambda>x. \<not> isWhitespace x) cs, c # cs) \<in> measure length" by simp
qed

definition splitCommandArgs :: "string \<Rightarrow> string option list" where
  "splitCommandArgs v = (let input = trim v in if input = [] then [] else matchArgs input)"

text \<open>
  \<^verbatim>\<open>extractOcAction\<close> returns \<^verbatim>\<open>{ args, cleaned }\<close>; \<^verbatim>\<open>args\<close> is
  \<^verbatim>\<open>null\<close> (\<open>None\<close>) when there is no action or no argument.
\<close>

definition extractOcAction :: "string \<Rightarrow> string option list option \<times> string" where
  "extractOcAction text =
     (if text = [] then (None, text)
      else
        (case foldl scanLine (None, []) (splitLines text) of (action, kept) \<Rightarrow>
           (let cleaned = trimEnd (join [CHR 0x0A] kept)
            in if falsy action then (None, cleaned)
               else
                 (let normalized = trim (stripOcPrefix (the action));
                      args = splitCommandArgs normalized
                  in (if args \<noteq> [] then Some args else None, cleaned)))))"

text \<open>\<^verbatim>\<open>args.join(' ')\<close>: an \<^verbatim>\<open>undefined\<close> element is printed as the empty string.\<close>

definition joinArgs :: "string option list \<Rightarrow> string" where
  "joinArgs args = join '' '' (map (\<lambda>a. case a of None \<Rightarrow> [] | Some x \<Rightarrow> x) args)"

text \<open>\<^verbatim>\<open>trimmed.split('\n')[0].substring(0, 50).trim()\<close>\<close>

definition deriveSessionTitle :: "string \<Rightarrow> string" where
  "deriveSessionTitle v =
     (let trimmed = sanitizeText v
      in if trimmed = [] then [] else trim (take 50 (hd (splitLines trimmed))))"

section \<open>Streaming state (useAgentStreaming.js)\<close>

text \<open>
  The translations \<^verbatim>\<open>t(key, params)\<close> are parameters of the model.
  \<^verbatim>\<open>resolveIntentFromText\<close> matches text outside the range of \<open>char\<close> and only
  chooses the intent prompt of the system preamble; it is a parameter as well.
\<close>

record env =
  t_patchApplying :: string
  t_patchApplied :: string
  t_patchFailed :: string
  t_mcpToolCall :: string
  t_permissionTitle :: string
  t_permissionAllow :: string
  t_permissionDeny :: string
  t_permissionPatch :: string
  t_permissionCommand :: "string \<Rightarrow> string"
  t_permissionCwd :: "string \<Rightarrow> string"
  t_toolError :: "string \<Rightarrow> string"
  resolveIntentFromText :: "string \<Rightarrow> string option"

definition STATUS_LABEL_KEYS :: "string list" where
  "STATUS_LABEL_KEYS =
     [''connecting'', ''connected'', ''authenticating'', ''authenticated'', ''session_active'',
      ''error'', ''disconnected'']"

text \<open>
  \<^verbatim>\<open>statusLabelKeys[status]\<close> is also truthy for the property names that the object
  literal inherits from \<^verbatim>\<open>Object.prototype\<close>.
\<close>

definition OBJECT_PROTOTYPE_KEYS :: "string list" where
  "OBJECT_PROTOTYPE_KEYS =
     [''constructor'', ''hasOwnProperty'', ''isPrototypeOf'', ''propertyIsEnumerable'',
      ''toLocaleString'', ''toString'', ''valueOf'', ''__proto__'', ''__defineGetter__'',
      ''__defineSetter__'', ''__lookupGetter__'', ''__lookupSetter__'']"

definition INTENT_PROMPTS :: "string \<Rightarrow> string" where
  "INTENT_PROMPTS i =
     (if i = ''create'' then
        ''You are in the OpenContext create flow. Decide the right time to call oc doc create with the active directory.''
      else if i = ''iterate'' then
        ''You are in the OpenContext iterate flow. Decide the right time to call oc doc open on the active document if available.''
      else if i = ''search'' then
        ''You are in the OpenContext search flow. Decide the right time to call oc search with the user query.''
      else [])"

text \<open>Calls to the provider adapter and the command runner (api.js), kept as a log.\<close>

datatype api_call =
    StopCodexExec string
  | StopClaudeExec string
  | StopOpenCodeRun string
  | RespondAcpPermission string string "string option"
  | RespondCodexPermission string string string bool
  | ExecOcCommand "string option list"

text \<open>
  The object given to \<^verbatim>\<open>setDialog\<close> by \<^verbatim>\<open>onPermission\<close>; the two callbacks are
  the acknowledgement each one would send.
\<close>

record dialog_box =
  dlg_title :: string
  dlg_message :: string
  dlg_confirmText :: string
  dlg_cancelText :: string
  dlg_onConfirm :: api_call
  dlg_onCancel :: api_call

text \<open>\<^verbatim>\<open>activeToolAnchorRef.current\<close> and \<^verbatim>\<open>activeThoughtMessageRef.current\<close>\<close>

record anchor =
  a_requestId :: req_id
  a_sessionId :: string
  assistantMessageId :: msg_id
  lastToolId :: "msg_id option"

record thought_ref =
  th_requestId :: req_id
  th_sessionId :: string
  th_messageId :: "msg_id option"
  th_anchorId :: msg_id

text \<open>
  The state of the hooks: the session list, the React state and the refs of
  \<^verbatim>\<open>useAgentStreaming\<close>, the dialog of \<^verbatim>\<open>AgentSidebar\<close>. \<open>clock\<close> is the
  value of \<^verbatim>\<open>Date.now()\<close>. \<open>nextMsgId\<close> and \<open>nextReqId\<close> stand for the random
  part of a new id: each new message and request takes the next number, so that two ids
  made by the hook never coincide. \<open>prompts\<close> lists the permission dialogs raised and
  \<open>apiLog\<close> the adapter calls made, in order.
\<close>

record state =
  sessions :: "session list"
  inputValue :: string
  isGenerating :: bool
  generatingSessionId :: "string option"
  reasoningText :: string
  activeRequestId :: "req_id option"
  stopRequested :: bool
  toolMessageMap :: "string \<rightharpoonup> msg_id"
  activeToolAnchor :: "anchor option"
  activeThoughtMessage :: "thought_ref option"
  activeAssistantMessage :: "msg_id option"
  toolSplit :: "string set"
  handledPermission :: "string set"
  expandedThoughtMessages :: "msg_id set"
  dialog :: "dialog_box option"
  clock :: nat
  nextMsgId :: nat
  nextReqId :: nat
  prompts :: "dialog_box list"
  apiLog :: "api_call list"

text \<open>
  What one call of \<^verbatim>\<open>handleSend\<close> closes over: its request and session id, the
  placeholder assistant message, the local \<^verbatim>\<open>assistantText\<close> and
  \<^verbatim>\<open>streamError\<close>, and the context it passes to the stream function.
\<close>

record closure =
  c_requestId :: req_id
  c_sessionId :: string
  c_assistantMessageId :: msg_id
  assistantText :: string
  streamError :: "string option"
  messagesForModel :: "model_message list"
  modelOverride :: string

definition createMessage ::
  "role \<Rightarrow> kind \<Rightarrow> string \<Rightarrow> msg_id option \<Rightarrow> state \<Rightarrow> message \<times> state" where
  "createMessage r k c a st =
     (\<lparr>msg_id = nextMsgId st, role = r, kind = k, content = c, summary = None, anchorId = a,
       createdAt = clock st\<rparr>,
      st\<lparr>nextMsgId := Suc (nextMsgId st)\<rparr>)"

text \<open>The key \<^verbatim>\<open>`${sessionId}:${callId}`\<close>\<close>

definition toolKey :: "string \<Rightarrow> string \<Rightarrow> string" where
  "toolKey sessionId callId = sessionId @ '':'' @ callId"

definition ensureToolMessage ::
  "string \<Rightarrow> string \<Rightarrow> string \<Rightarrow> kind \<Rightarrow> msg_id option \<Rightarrow> msg_id option \<Rightarrow> state
     \<Rightarrow> msg_id \<times> state" where
  "ensureToolMessage sessionId callId header k insertAfterId anchId st =
     (let key = toolKey sessionId callId
      in case toolMessageMap st key of
           Some existingId \<Rightarrow> (existingId, st)
         | None \<Rightarrow>
             (case createMessage RTool k header anchId st of (m, st1) \<Rightarrow>
                (let st2 =
                       (case insertAfterId of
                          Some a \<Rightarrow>
                            st1\<lparr>sessions := insertMessageAfter sessionId a m (clock st1) (sessions st1)\<rparr>
                        | None \<Rightarrow>
                            st1\<lparr>sessions := appendMessages sessionId [m] (clock st1) (sessions st1)\<rparr>)
                 in (msg_id m, st2\<lparr>toolMessageMap := (toolMessageMap st2)(key \<mapsto> msg_id m)\<rparr>))))"

text \<open>The anchor is in use for this session and the current request.\<close>

definition anchorLive :: "string \<Rightarrow> state \<Rightarrow> bool" where
  "anchorLive sessionId st =
     (case activeToolAnchor st of
        None \<Rightarrow> False
      | Some a \<Rightarrow> a_sessionId a = sessionId \<and> activeRequestId st = Some (a_requestId a))"

definition appendLine :: "string \<Rightarrow> string \<Rightarrow> string" where
  "appendLine text prevContent =
     (if prevContent = [] then text else if text = [] then prevContent
      else prevContent @ [CHR 0x0A] @ text)"

definition appendToolLikeMessage ::
  "string \<Rightarrow> string \<Rightarrow> string \<Rightarrow> kind \<Rightarrow> msg_id option \<Rightarrow> state \<Rightarrow> msg_id \<times> state" where
  "appendToolLikeMessage sessionId callId text k insertAfterId st =
     (let key = toolKey sessionId callId;
          existed = (toolMessageMap st key \<noteq> None);
          useAnchor = (insertAfterId = None \<and> anchorLive sessionId st);
          anchorAfterId =
            (if useAnchor then
               (case activeToolAnchor st of
                  Some a \<Rightarrow>
                    (case lastToolId a of Some l \<Rightarrow> Some l | None \<Rightarrow> Some (assistantMessageId a))
                | None \<Rightarrow> insertAfterId)
             else insertAfterId);
          anchorMessageId =
            (if useAnchor then map_option assistantMessageId (activeToolAnchor st) else None)
      in case ensureToolMessage sessionId callId [] k anchorAfterId
                (case anchorMessageId of Some x \<Rightarrow> Some x | None \<Rightarrow> insertAfterId) st of
           (messageId, st1) \<Rightarrow>
             (let st2 =
                    (if \<not> existed \<and> anchorLive sessionId st then
                       st1\<lparr>activeToolAnchor :=
                             map_option (\<lambda>a. a\<lparr>lastToolId := Some messageId\<rparr>)
                               (activeToolAnchor st1)\<rparr>
                     else st1)
              in (messageId,
                  st2\<lparr>sessions :=
                        updateMessageContent sessionId messageId (Fn (appendLine text)) (clock st2)
                          (sessions st2)\<rparr>)))"

definition updateToolSummary :: "string \<Rightarrow> string \<Rightarrow> string \<Rightarrow> kind \<Rightarrow> state \<Rightarrow> state" where
  "updateToolSummary sessionId callId sm k st =
     (case ensureToolMessage sessionId callId [] k None None st of
        (messageId, st1) \<Rightarrow>
          st1\<lparr>sessions := updateMessageSummary sessionId messageId sm (clock st1) (sessions st1)\<rparr>)"

definition collapseThought :: "string \<Rightarrow> state \<Rightarrow> state" where
  "collapseThought sessionId st =
     (case activeThoughtMessage st of
        None \<Rightarrow> st
      | Some tr \<Rightarrow>
          (case th_messageId tr of
             None \<Rightarrow> st
           | Some tm \<Rightarrow>
               if th_sessionId tr = sessionId
               then st\<lparr>expandedThoughtMessages := expandedThoughtMessages st - {tm}\<rparr>
               else st))"

definition splitAssistantForTool ::
  "string \<Rightarrow> string \<Rightarrow> kind \<Rightarrow> state \<Rightarrow> msg_id option \<times> state" where
  "splitAssistantForTool sessionId callId k st =
     (case activeToolAnchor st of
        None \<Rightarrow> (None, st)
      | Some anc \<Rightarrow>
          if a_sessionId anc \<noteq> sessionId \<or> activeRequestId st \<noteq> Some (a_requestId anc)
          then (None, st)
          else
            (let currentAssistantId =
                   (case activeAssistantMessage st of
                      Some x \<Rightarrow> x | None \<Rightarrow> assistantMessageId anc)
             in if callId \<in> toolSplit st then (Some currentAssistantId, st)
                else
                  (case ensureToolMessage sessionId callId [] k (Some currentAssistantId)
                          (Some currentAssistantId) (collapseThought sessionId st) of
                     (toolMessageId, st2) \<Rightarrow>
                       (case createMessage RAssistant KText [] None
                               (st2\<lparr>toolSplit := insert callId (toolSplit st2)\<rparr>) of
                          (continuation, st4) \<Rightarrow>
                            (Some (msg_id continuation),
                             st4\<lparr>sessions :=
                                    insertMessageAfter sessionId toolMessageId continuation
                                      (clock st4) (sessions st4),
                                  activeAssistantMessage := Some (msg_id continuation),
                                  activeToolAnchor :=
                                    Some (anc\<lparr>assistantMessageId := msg_id continuation,
                                              lastToolId := Some toolMessageId\<rparr>)\<rparr>)))))"

section \<open>Stream callbacks (handleSend)\<close>

text \<open>
  The normalized events. A payload is given with the fields the callbacks read, already
  in the form they use them: a command is the text after
  \<^verbatim>\<open>Array.isArray(c) ? c.join(' ') : c\<close>, a list of locations is the list of their paths,
  an exit code is its printed form, and a missing or falsy field is the empty string.
\<close>

datatype content_block = TextBlock string | DiffBlock string | OtherBlock

record tool_update =
  u_title :: string
  u_kind :: string
  u_status :: string
  u_locations :: "string list"
  u_content :: "content_block list"
  u_rawOutputError :: string

datatype tool_event =
    ToolCall string tool_update
  | ToolCallUpdate string tool_update
  | ExecCommandBegin string string string
  | ExecCommandOutputDelta string string
  | ExecCommandEnd string "string option" string
  | PatchApplyBegin string
  | PatchApplyEnd string bool "string list" "string list" string
  | McpToolCallBegin string string
  | McpToolCallEnd string string
  | OtherTool string

fun toolCallId :: "tool_event \<Rightarrow> string" where
  "toolCallId (ToolCall c u) = c"
| "toolCallId (ToolCallUpdate c u) = c"
| "toolCallId (ExecCommandBegin c cmd cwd) = c"
| "toolCallId (ExecCommandOutputDelta c chunk) = c"
| "toolCallId (ExecCommandEnd c code err) = c"
| "toolCallId (PatchApplyBegin c) = c"
| "toolCallId (PatchApplyEnd c ok applied failed err) = c"
| "toolCallId (McpToolCallBegin c nm) = c"
| "toolCallId (McpToolCallEnd c err) = c"
| "toolCallId (OtherTool c) = c"

record perm_option =
  o_kind :: string
  o_name :: string
  o_optionId :: string

record permission =
  p_callId :: string
  p_source :: string
  p_title :: string
  p_command :: string
  p_hasPatch :: bool
  p_filePath :: string
  p_locations :: "string list"
  p_options :: "perm_option list"
  p_type :: string
  p_summary :: string
  p_cwd :: string

definition startsWith :: "string \<Rightarrow> string \<Rightarrow> bool" where
  "startsWith pre s \<longleftrightarrow> take (length pre) s = pre"

definition nonEmpty :: "string list \<Rightarrow> string list" where
  "nonEmpty xs = filter (\<lambda>x. x \<noteq> []) xs"

definition currentTarget :: "closure \<Rightarrow> state \<Rightarrow> msg_id" where
  "currentTarget cl st =
     (case activeAssistantMessage st of Some x \<Rightarrow> x | None \<Rightarrow> c_assistantMessageId cl)"

definition onToken :: "string \<Rightarrow> closure \<times> state \<Rightarrow> closure \<times> state" where
  "onToken token cs =
     (case cs of (cl, st) \<Rightarrow>
        if stopRequested st then (cl, st)
        else if activeRequestId st \<noteq> Some (c_requestId cl) then (cl, st)
        else
          (cl\<lparr>assistantText := assistantText cl @ token\<rparr>,
           st\<lparr>sessions :=
                 updateMessageContent (c_sessionId cl) (currentTarget cl st)
                   (Fn (\<lambda>prevContent. prevContent @ token)) (clock st) (sessions st)\<rparr>))"

definition onError :: "string \<Rightarrow> closure \<times> state \<Rightarrow> closure \<times> state" where
  "onError e cs = (case cs of (cl, st) \<Rightarrow> (cl\<lparr>streamError := Some e\<rparr>, st))"

definition onStatus :: "string \<Rightarrow> closure \<times> state \<Rightarrow> closure \<times> state" where
  "onStatus s cs =
     (case cs of (cl, st) \<Rightarrow>
        if activeRequestId st \<noteq> Some (c_requestId cl) then (cl, st)
        else
          (let st1 =
                 (if s \<noteq> [] \<and> s \<in> set (STATUS_LABEL_KEYS @ OBJECT_PROTOTYPE_KEYS) then
                    st\<lparr>sessions :=
                          updateSession (c_sessionId cl) (\<lambda>x. x\<lparr>status := Some s\<rparr>) (clock st)
                            (sessions st)\<rparr>
                  else st);
               st2 =
                 (if s = ''task_started'' then
                    st1\<lparr>isGenerating := True, generatingSessionId := Some (c_sessionId cl)\<rparr>
                  else st1);
               st3 =
                 (if s = ''stopped'' then
                    st2\<lparr>isGenerating := False, generatingSessionId := None, reasoningText := []\<rparr>
                  else st2)
           in (cl, st3)))"

definition onReasoning :: "string \<Rightarrow> closure \<times> state \<Rightarrow> closure \<times> state" where
  "onReasoning delta cs =
     (case cs of (cl, st) \<Rightarrow>
        if activeRequestId st \<noteq> Some (c_requestId cl) then (cl, st)
        else
          (let st1 = st\<lparr>reasoningText := reasoningText st @ delta\<rparr>
           in case activeThoughtMessage st1 of
                None \<Rightarrow> (cl, st1)
              | Some tr \<Rightarrow>
                  if th_requestId tr \<noteq> c_requestId cl \<or> th_sessionId tr \<noteq> c_sessionId cl
                  then (cl, st1)
                  else
                    (case th_messageId tr of
                       Some tm \<Rightarrow>
                         (cl, st1\<lparr>sessions :=
                                   updateMessageContent (c_sessionId cl) tm
                                     (Fn (\<lambda>prevContent. prevContent @ delta)) (clock st1)
                                     (sessions st1)\<rparr>)
                     | None \<Rightarrow>
                         (case createMessage RAssistant KThought [] None st1 of
                            (tmsg, st2) \<Rightarrow>
                              (let st3 =
                                     st2\<lparr>sessions :=
                                           insertMessageAfter (c_sessionId cl) (th_anchorId tr) tmsg
                                             (clock st2) (sessions st2),
                                         activeThoughtMessage :=
                                           Some (tr\<lparr>th_messageId := Some (msg_id tmsg)\<rparr>),
                                         expandedThoughtMessages :=
                                           insert (msg_id tmsg) (expandedThoughtMessages st2)\<rparr>
                               in (cl, st3\<lparr>sessions :=
                                         updateMessageContent (c_sessionId cl) (msg_id tmsg)
                                           (Fn (\<lambda>prevContent. prevContent @ delta)) (clock st3)
                                           (sessions st3)\<rparr>))))))"

definition setDialog :: "dialog_box \<Rightarrow> state \<Rightarrow> state" where
  "setDialog d st = st\<lparr>dialog := Some d, prompts := prompts st @ [d]\<rparr>"

definition acpMessageLines :: "env \<Rightarrow> permission \<Rightarrow> string list" where
  "acpMessageLines ev p =
     (if p_title p \<noteq> [] then [p_title p] else []) @
     (if p_command p \<noteq> [] then [t_permissionCommand ev (p_command p)] else []) @
     (if p_hasPatch p then [t_permissionPatch ev] else []) @
     (if p_filePath p \<noteq> [] then [p_filePath p] else []) @
     (if p_filePath p = [] \<and> nonEmpty (p_locations p) \<noteq> [] then nonEmpty (p_locations p) else [])"

definition codexMessageLines :: "env \<Rightarrow> permission \<Rightarrow> string list" where
  "codexMessageLines ev p =
     (if p_type p = ''exec_approval_request'' \<and> p_command p \<noteq> []
      then [t_permissionCommand ev (p_command p)] else []) @
     (if p_type p = ''apply_patch_approval_request'' then [t_permissionPatch ev] else []) @
     (if p_cwd p \<noteq> [] then [t_permissionCwd ev (p_cwd p)] else []) @
     (if p_summary p \<noteq> [] then [p_summary p] else [])"

definition allowOption :: "perm_option list \<Rightarrow> perm_option option" where
  "allowOption opts =
     (case find (\<lambda>x. startsWith ''allow'' (o_kind x)) opts of
        Some x \<Rightarrow> Some x
      | None \<Rightarrow> (case opts of [] \<Rightarrow> None | x # xs \<Rightarrow> Some x))"

definition denyOption :: "perm_option list \<Rightarrow> perm_option option" where
  "denyOption opts =
     (case find (\<lambda>x. startsWith ''reject'' (o_kind x)) opts of
        Some x \<Rightarrow> Some x
      | None \<Rightarrow> (if opts = [] then None else Some (last opts)))"

definition orElse :: "string \<Rightarrow> string \<Rightarrow> string" where
  "orElse a b = (if a \<noteq> [] then a else b)"

definition permissionDialog :: "env \<Rightarrow> string \<Rightarrow> permission \<Rightarrow> dialog_box" where
  "permissionDialog ev sessionId p =
     (if p_source p = ''acp'' then
        \<lparr>dlg_title = t_permissionTitle ev,
         dlg_message = join [CHR 0x0A] (nonEmpty (acpMessageLines ev p)),
         dlg_confirmText =
           orElse (case allowOption (p_options p) of Some x \<Rightarrow> o_name x | None \<Rightarrow> [])
             (t_permissionAllow ev),
         dlg_cancelText =
           orElse (case denyOption (p_options p) of Some x \<Rightarrow> o_name x | None \<Rightarrow> [])
             (t_permissionDeny ev),
         dlg_onConfirm =
           RespondAcpPermission sessionId (p_callId p)
             (map_option o_optionId (allowOption (p_options p))),
         dlg_onCancel =
           RespondAcpPermission sessionId (p_callId p)
             (map_option o_optionId (denyOption (p_options p)))\<rparr>
      else
        \<lparr>dlg_title = t_permissionTitle ev,
         dlg_message = join [CHR 0x0A] (nonEmpty (codexMessageLines ev p)),
         dlg_confirmText = t_permissionAllow ev,
         dlg_cancelText = t_permissionDeny ev,
         dlg_onConfirm = RespondCodexPermission sessionId (p_callId p) (p_type p) True,
         dlg_onCancel = RespondCodexPermission sessionId (p_callId p) (p_type p) False\<rparr>)"

definition onPermission :: "env \<Rightarrow> permission \<Rightarrow> closure \<times> state \<Rightarrow> closure \<times> state" where
  "onPermission ev p cs =
     (case cs of (cl, st) \<Rightarrow>
        if activeRequestId st \<noteq> Some (c_requestId cl) then (cl, st)
        else if p_callId p = [] then (cl, st)
        else if toolKey (c_sessionId cl) (p_callId p) \<in> handledPermission st then (cl, st)
        else
          (let st1 =
                 st\<lparr>handledPermission :=
                       insert (toolKey (c_sessionId cl) (p_callId p)) (handledPermission st)\<rparr>;
               st2 = snd (splitAssistantForTool (c_sessionId cl) (p_callId p) KTool st1);
               st3 =
                 snd (appendToolLikeMessage (c_sessionId cl) (p_callId p)
                        (dlg_message (permissionDialog ev (c_sessionId cl) p)) KTool None st2)
           in (cl, setDialog (permissionDialog ev (c_sessionId cl) p) st3)))"

definition appendTool :: "string \<Rightarrow> string \<Rightarrow> string \<Rightarrow> state \<Rightarrow> state" where
  "appendTool sessionId callId text st =
     snd (appendToolLikeMessage sessionId callId text KTool None st)"

definition splitTool :: "string \<Rightarrow> string \<Rightarrow> state \<Rightarrow> state" where
  "splitTool sessionId callId st = snd (splitAssistantForTool sessionId callId KTool st)"

definition applyBlock :: "string \<Rightarrow> string \<Rightarrow> state \<Rightarrow> content_block \<Rightarrow> state" where
  "applyBlock sessionId callId st b =
     (case b of
        TextBlock txt \<Rightarrow> appendTool sessionId callId txt st
      | DiffBlock path \<Rightarrow>
          appendTool sessionId callId (if path \<noteq> [] then ''diff: '' @ path else ''diff'') st
      | OtherBlock \<Rightarrow> st)"

definition statusLine :: "tool_update \<Rightarrow> string" where
  "statusLine u = (if u_status u \<noteq> [] then ''status: '' @ u_status u else [])"

text \<open>The body of \<^verbatim>\<open>onTool\<close> after its two guards, one equation for each event type.\<close>

fun toolBody :: "env \<Rightarrow> string \<Rightarrow> tool_event \<Rightarrow> state \<Rightarrow> state" where
  "toolBody ev sid (ToolCall c u) st =
     appendTool sid c
       (join [CHR 0x0A]
          (nonEmpty ([orElse (u_title u) (orElse (u_kind u) ''Tool''), statusLine u]
                     @ nonEmpty (u_locations u))))
       (splitTool sid c st)"
| "toolBody ev sid (ToolCallUpdate c u) st =
     (let st1 = (if statusLine u \<noteq> [] then appendTool sid c (statusLine u) st else st);
          st2 = foldl (applyBlock sid c) st1 (u_content u)
      in if u_rawOutputError u \<noteq> [] then appendTool sid c (u_rawOutputError u) st2 else st2)"
| "toolBody ev sid (ExecCommandBegin c cmd cwd) st =
     appendTool sid c
       (join [CHR 0x0A]
          (nonEmpty [if cmd \<noteq> [] then ''> '' @ cmd else ''Running command'',
                     if cwd \<noteq> [] then ''cwd: '' @ cwd else []]))
       (splitTool sid c st)"
| "toolBody ev sid (ExecCommandOutputDelta c chunk) st =
     (if chunk \<noteq> [] then appendTool sid c chunk st else st)"
| "toolBody ev sid (ExecCommandEnd c code err) st =
     (let st1 =
            appendTool sid c
              (case code of Some n \<Rightarrow> ''exit: '' @ n | None \<Rightarrow> ''command finished'') st
      in if err \<noteq> [] then appendTool sid c err st1 else st1)"
| "toolBody ev sid (PatchApplyBegin c) st =
     appendTool sid c (t_patchApplying ev)
       (updateToolSummary sid c (t_patchApplying ev) KTool (splitTool sid c st))"
| "toolBody ev sid (PatchApplyEnd c ok applied failed err) st =
     (let stat = (if ok then t_patchApplied ev else t_patchFailed ev);
          st1 = appendTool sid c stat (updateToolSummary sid c stat KTool st);
          st2 = (if applied \<noteq> [] then appendTool sid c (''applied: '' @ join '', '' applied) st1
                 else st1);
          st3 = (if failed \<noteq> [] then appendTool sid c (''failed: '' @ join '', '' failed) st2
                 else st2)
      in if err \<noteq> [] then appendTool sid c err st3 else st3)"
| "toolBody ev sid (McpToolCallBegin c nm) st =
     appendTool sid c (if nm \<noteq> [] then ''MCP: '' @ nm else t_mcpToolCall ev) (splitTool sid c st)"
| "toolBody ev sid (McpToolCallEnd c err) st =
     (if err \<noteq> [] then appendTool sid c (''error: '' @ err) st else st)"
| "toolBody ev sid (OtherTool c) st = st"

definition onTool :: "env \<Rightarrow> tool_event \<Rightarrow> closure \<times> state \<Rightarrow> closure \<times> state" where
  "onTool ev e cs =
     (case cs of (cl, st) \<Rightarrow>
        if activeRequestId st \<noteq> Some (c_requestId cl) then (cl, st)
        else if toolCallId e = [] then (cl, st)
        else (cl, toolBody ev (c_sessionId cl) e st))"

datatype event =
    EToken string
  | EReasoning string
  | EStatus string
  | EPermission permission
  | ETool tool_event
  | EError string

fun deliver :: "env \<Rightarrow> closure \<times> state \<Rightarrow> event \<Rightarrow> closure \<times> state" where
  "deliver ev cs (EToken tok) = onToken tok cs"
| "deliver ev cs (EReasoning d) = onReasoning d cs"
| "deliver ev cs (EStatus s) = onStatus s cs"
| "deliver ev cs (EPermission p) = onPermission ev p cs"
| "deliver ev cs (ETool e) = onTool ev e cs"
| "deliver ev cs (EError e) = onError e cs"

definition deliverAll :: "env \<Rightarrow> event list \<Rightarrow> closure \<times> state \<Rightarrow> closure \<times> state" where
  "deliverAll ev evs cs = foldl (deliver ev) cs evs"

section \<open>Completion, sending and stopping\<close>

text \<open>
  What \<^verbatim>\<open>api.execOcCommand\<close> gives back: a result with \<^verbatim>\<open>stdout\<close>,
  \<^verbatim>\<open>stderr\<close> (empty when missing) and the printed \<^verbatim>\<open>code\<close> (\<open>None\<close> when
  undefined), or a thrown error with its message. The call and what follows its
  \<^verbatim>\<open>await\<close> are taken as one step.
\<close>

datatype exec_outcome = ExecReturned string string "string option" | ExecThrew string

definition runOcCommand ::
  "string \<Rightarrow> string option list \<Rightarrow> string \<Rightarrow> exec_outcome \<Rightarrow> state \<Rightarrow> state" where
  "runOcCommand sessionId args callId outcome st =
     (if args = [] then st
      else
        (let st1 = appendTool sessionId callId (''$ oc '' @ joinArgs args) st;
             st2 = st1\<lparr>apiLog := apiLog st1 @ [ExecOcCommand args]\<rparr>
         in case outcome of
              ExecReturned out err code \<Rightarrow>
                (let st3 = (if out \<noteq> [] then appendTool sessionId callId out st2 else st2);
                     st4 = (if err \<noteq> [] then appendTool sessionId callId err st3 else st3)
                 in case code of
                      Some n \<Rightarrow> appendTool sessionId callId (''exit: '' @ n) st4
                    | None \<Rightarrow> st4)
            | ExecThrew msg \<Rightarrow>
                appendTool sessionId callId (orElse msg ''oc command failed'') st2))"

definition resetRequest :: "req_id \<Rightarrow> state \<Rightarrow> state" where
  "resetRequest requestId st =
     (if activeRequestId st \<noteq> Some requestId then st
      else
        (let st1 =
               st\<lparr>isGenerating := False, generatingSessionId := None, reasoningText := [],
                   activeRequestId := None\<rparr>;
             st2 =
               (case activeToolAnchor st1 of
                  Some a \<Rightarrow> if a_requestId a = requestId then st1\<lparr>activeToolAnchor := None\<rparr> else st1
                | None \<Rightarrow> st1);
             st3 =
               (case activeThoughtMessage st2 of
                  Some tr \<Rightarrow>
                    if th_requestId tr = requestId then
                      (case th_messageId tr of
                         Some tm \<Rightarrow>
                           st2\<lparr>expandedThoughtMessages := expandedThoughtMessages st2 - {tm},
                               activeThoughtMessage := None\<rparr>
                       | None \<Rightarrow> st2\<lparr>activeThoughtMessage := None\<rparr>)
                    else st2
                | None \<Rightarrow> st2)
         in st3\<lparr>toolSplit := {}, activeAssistantMessage := None\<rparr>))"

text \<open>
  The \<^verbatim>\<open>finally\<close> block of \<^verbatim>\<open>handleSend\<close>. \<open>ocCallId\<close> is the value of
  \<^verbatim>\<open>`oc-${Date.now()}`\<close> and \<open>outcome\<close> what the command runner answers.
\<close>

definition finishStream ::
  "env \<Rightarrow> string \<Rightarrow> exec_outcome \<Rightarrow> closure \<times> state \<Rightarrow> state" where
  "finishStream ev ocCallId outcome cs =
     (case cs of (cl, st) \<Rightarrow>
        (let sid = c_sessionId cl;
             st1 =
               (case streamError cl of
                  None \<Rightarrow>
                    (let args = fst (extractOcAction (assistantText cl));
                         sta =
                           st\<lparr>sessions :=
                                 updateMessageContent sid (currentTarget cl st)
                                   (Fn (\<lambda>prevContent. snd (extractOcAction prevContent)))
                                   (clock st) (sessions st)\<rparr>
                     in case args of
                          None \<Rightarrow> sta
                        | Some as \<Rightarrow>
                            if as \<noteq> [] then runOcCommand sid as ocCallId outcome (splitTool sid ocCallId sta)
                            else sta)
                | Some e \<Rightarrow>
                    (case createMessage RTool KTool (t_toolError ev e) None st of
                       (m, stb) \<Rightarrow>
                         (let stc =
                                stb\<lparr>sessions := appendMessages sid [m] (clock stb) (sessions stb)\<rparr>
                          in stc\<lparr>sessions :=
                                   updateSession sid (\<lambda>x. x\<lparr>status := Some ''error''\<rparr>) (clock stc)
                                     (sessions stc)\<rparr>)))
         in resetRequest (c_requestId cl) st1))"

definition truthy :: "string option \<Rightarrow> bool" where
  "truthy a \<longleftrightarrow> \<not> falsy a"

definition handleSend ::
  "env \<Rightarrow> session option \<Rightarrow> bool \<Rightarrow> string \<Rightarrow> state \<Rightarrow> closure option \<times> state" where
  "handleSend ev activeSession isInputReady contextBlock st =
     (let trimmed = sanitizeText (inputValue st)
      in case activeSession of
           None \<Rightarrow> (None, st)
         | Some act \<Rightarrow>
             if trimmed = [] \<or> \<not> isInputReady \<or> isGenerating st then (None, st)
             else
               (let sid = sess_id act;
                    resolvedIntent =
                      (if truthy (intent act) then intent act else resolveIntentFromText ev trimmed);
                    st1 =
                      (if autoTitle act \<and> messages act = [] then
                         st\<lparr>sessions :=
                               updateSession sid
                                 (\<lambda>x. if deriveSessionTitle trimmed \<noteq> []
                                       then x\<lparr>name := deriveSessionTitle trimmed, autoTitle := False\<rparr>
                                       else x\<lparr>autoTitle := False\<rparr>)
                                 (clock st) (sessions st)\<rparr>
                       else st)
                in case createMessage RUser KText trimmed None st1 of
                     (userMessage, st2) \<Rightarrow>
                       (case createMessage RAssistant KText [] None st2 of
                          (assistantMessage, st3) \<Rightarrow>
                            (let requestId = nextReqId st3;
                                 st4 =
                                   st3\<lparr>sessions :=
                                         appendMessages sid [userMessage, assistantMessage]
                                           (clock st3) (sessions st3),
                                       inputValue := [],
                                       isGenerating := True,
                                       generatingSessionId := Some sid,
                                       reasoningText := [],
                                       nextReqId := Suc (nextReqId st3),
                                       activeRequestId := Some requestId,
                                       activeToolAnchor :=
                                         Some \<lparr>a_requestId = requestId, a_sessionId = sid,
                                               assistantMessageId = msg_id assistantMessage,
                                               lastToolId = None\<rparr>,
                                       activeAssistantMessage := Some (msg_id assistantMessage),
                                       toolSplit := {},
                                       activeThoughtMessage :=
                                         Some \<lparr>th_requestId = requestId, th_sessionId = sid,
                                               th_messageId = None,
                                               th_anchorId = msg_id userMessage\<rparr>,
                                       stopRequested := False\<rparr>;
                                 st5 =
                                   (if truthy (intent act) then
                                      st4\<lparr>sessions :=
                                            updateSession sid (\<lambda>x. x\<lparr>intent := None\<rparr>) (clock st4)
                                              (sessions st4)\<rparr>
                                    else st4);
                                 intentPrompt =
                                   (case resolvedIntent of
                                      Some i \<Rightarrow> if i \<noteq> [] then INTENT_PROMPTS i else []
                                    | None \<Rightarrow> []);
                                 extraSystem =
                                   join [CHR 0x0A, CHR 0x0A] (nonEmpty [contextBlock, intentPrompt])
                             in (Some \<lparr>c_requestId = requestId, c_sessionId = sid,
                                       c_assistantMessageId = msg_id assistantMessage,
                                       assistantText = [], streamError = None,
                                       messagesForModel =
                                         buildModelMessages (Some act)
                                           (messages act @ [userMessage]) extraSystem,
                                       modelOverride = sanitizeText (model act)\<rparr>,
                                 st5)))))"

definition handleStop :: "session option \<Rightarrow> state \<Rightarrow> state" where
  "handleStop activeSession st =
     (let st1 = st\<lparr>stopRequested := True\<rparr>;
          st2 =
            (case activeSession of
               None \<Rightarrow> st1
             | Some act \<Rightarrow>
                 if activeRequestId st1 \<noteq> None \<and> sess_id act \<noteq> [] then
                   (if agentId act = ''codex'' then
                      st1\<lparr>apiLog := apiLog st1 @ [StopCodexExec (sess_id act)]\<rparr>
                    else if agentId act = ''claude'' then
                      st1\<lparr>apiLog := apiLog st1 @ [StopClaudeExec (sess_id act)]\<rparr>
                    else if agentId act = ''opencode'' then
                      st1\<lparr>apiLog := apiLog st1 @ [StopOpenCodeRun (sess_id act)]\<rparr>
                    else st1)
                 else st1);
          st3 =
            st2\<lparr>isGenerating := False, generatingSessionId := None, reasoningText := [],
                activeRequestId := None\<rparr>
      in case activeSession of
           None \<Rightarrow> st3
         | Some act \<Rightarrow>
             if sess_id act \<noteq> [] then
               st3\<lparr>sessions :=
                     updateSession (sess_id act) (\<lambda>x. x\<lparr>status := Some ''disconnected''\<rparr>)
                       (clock st3) (sessions st3)\<rparr>
             else st3)"

section \<open>The permission dialog and the hook as a transition system\<close>

text \<open>
  Modelled from the spec: the component \<^verbatim>\<open>CustomDialog\<close> (imported from
  \<^verbatim>\<open>../Dialogs\<close>) is not part of the sources at hand. Following section 4.4 of the
  specification, the dialog presents two resolving actions, approve and deny, each mapped
  to the acknowledgement call that carries the original call id; resolving sends that one
  call and closes the dialog. \<^verbatim>\<open>AgentSidebar\<close> renders the dialog only while one is
  set and closes it with \<^verbatim>\<open>setDialog(null)\<close>.
\<close>

definition resolveDialog :: "bool \<Rightarrow> state \<Rightarrow> state" where
  "resolveDialog approve st =
     (case dialog st of
        None \<Rightarrow> st
      | Some d \<Rightarrow>
          st\<lparr>apiLog := apiLog st @ [if approve then dlg_onConfirm d else dlg_onCancel d],
              dialog := None\<rparr>)"

definition closeDialog :: "state \<Rightarrow> state" where
  "closeDialog st = st\<lparr>dialog := None\<rparr>"

text \<open>
  Everything that can happen to the hook: the user sends, types or stops, an event of some
  request's stream is delivered to the callbacks of that request's closure, a stream ends,
  the dialog is resolved or closed, time passes, or another part of the sidebar changes
  the session list.
\<close>

datatype action =
    ASend "session option" bool string
  | ASetInput string
  | AStop "session option"
  | AEvent closure event
  | AFinish closure string exec_outcome
  | AResolveDialog bool
  | ACloseDialog
  | ATick nat
  | AStore "session list \<Rightarrow> session list"

fun step :: "env \<Rightarrow> state \<Rightarrow> action \<Rightarrow> state" where
  "step ev st (ASend act ready ctx) = snd (handleSend ev act ready ctx st)"
| "step ev st (ASetInput v) = st\<lparr>inputValue := v\<rparr>"
| "step ev st (AStop act) = handleStop act st"
| "step ev st (AEvent cl e) = snd (deliver ev (cl, st) e)"
| "step ev st (AFinish cl ocCallId outcome) = finishStream ev ocCallId outcome (cl, st)"
| "step ev st (AResolveDialog approve) = resolveDialog approve st"
| "step ev st ACloseDialog = closeDialog st"
| "step ev st (ATick n) = st\<lparr>clock := clock st + n\<rparr>"
| "step ev st (AStore f) = st\<lparr>sessions := f (sessions st)\<rparr>"

definition run :: "env \<Rightarrow> action list \<Rightarrow> state \<Rightarrow> state" where
  "run ev acts st = foldl (step ev) st acts"

definition initialState :: state where
  "initialState =
     \<lparr>sessions = [], inputValue = [], isGenerating = False, generatingSessionId = None,
      reasoningText = [], activeRequestId = None, stopRequested = False,
      toolMessageMap = Map.empty, activeToolAnchor = None, activeThoughtMessage = None,
      activeAssistantMessage = None, toolSplit = {}, handledPermission = {},
      expandedThoughtMessages = {}, dialog = None, clock = 0, nextMsgId = 0, nextReqId = 0,
      prompts = [], apiLog = []\<rparr>"

section \<open>Observations used in the statements\<close>

text \<open>The message list of the first session with the given id, if there is one.\<close>

definition msgsOf :: "string \<Rightarrow> session list \<Rightarrow> message list option" where
  "msgsOf sid ss = map_option messages (find (\<lambda>s. sess_id s = sid) ss)"

definition view :: "string \<Rightarrow> state \<Rightarrow> message list option" where
  "view sid st = msgsOf sid (sessions st)"

definition statusOf :: "string \<Rightarrow> state \<Rightarrow> string option option" where
  "statusOf sid st = map_option status (find (\<lambda>s. sess_id s = sid) (sessions st))"

definition isToolMessage :: "message \<Rightarrow> bool" where
  "isToolMessage m \<longleftrightarrow> role m = RTool"

text \<open>The event types whose branch of \<^verbatim>\<open>onTool\<close> calls \<^verbatim>\<open>splitAssistantForTool\<close>.\<close>

fun splits :: "tool_event \<Rightarrow> bool" where
  "splits (ToolCall c u) = True"
| "splits (ExecCommandBegin c cmd cwd) = True"
| "splits (PatchApplyBegin c) = True"
| "splits (McpToolCallBegin c nm) = True"
| "splits e = False"

text \<open>
  The events whose branch reaches \<^verbatim>\<open>appendToolLikeMessage\<close> or
  \<^verbatim>\<open>updateToolSummary\<close>: the others have nothing to show and return at once.
\<close>

fun emits :: "tool_event \<Rightarrow> bool" where
  "emits (ToolCallUpdate c u) \<longleftrightarrow>
     statusLine u \<noteq> [] \<or> list_ex (\<lambda>b. b \<noteq> OtherBlock) (u_content u) \<or> u_rawOutputError u \<noteq> []"
| "emits (ExecCommandOutputDelta c chunk) \<longleftrightarrow> chunk \<noteq> []"
| "emits (McpToolCallEnd c err) \<longleftrightarrow> err \<noteq> []"
| "emits (OtherTool c) \<longleftrightarrow> False"
| "emits e \<longleftrightarrow> True"

text \<open>The session and call id an acknowledgement is for, as the key the hook uses.\<close>

fun ackKey :: "api_call \<Rightarrow> string option" where
  "ackKey (RespondAcpPermission sid c opt) = Some (toolKey sid c)"
| "ackKey (RespondCodexPermission sid c ty ok) = Some (toolKey sid c)"
| "ackKey other = None"

definition acksFor :: "string \<Rightarrow> state \<Rightarrow> nat" where
  "acksFor k st = length (filter (\<lambda>a. ackKey a = Some k) (apiLog st))"

definition promptsFor :: "string \<Rightarrow> state \<Rightarrow> nat" where
  "promptsFor k st = length (filter (\<lambda>d. ackKey (dlg_onConfirm d) = Some k) (prompts st))"

definition pendingFor :: "string \<Rightarrow> state \<Rightarrow> nat" where
  "pendingFor k st =
     (case dialog st of
        None \<Rightarrow> 0
      | Some d \<Rightarrow> if ackKey (dlg_onConfirm d) = Some k then 1 else 0)"

text \<open>A change of the message with a given id, as the two update functions make it.\<close>

definition mutate :: "msg_id \<Rightarrow> (message \<Rightarrow> message) \<Rightarrow> message list \<Rightarrow> message list" where
  "mutate k f msgs = map (\<lambda>m. if msg_id m \<noteq> k then m else f m) msgs"

definition setContent :: "updater \<Rightarrow> message \<Rightarrow> message" where
  "setContent u m = m\<lparr>content := applyUpdater u (content m)\<rparr>"

definition setSummary :: "string \<Rightarrow> message \<Rightarrow> message" where
  "setSummary sm m = m\<lparr>summary := Some sm\<rparr>"

text \<open>
  The part of the state the permission gate works on: the handled keys, the dialogs raised,
  the dialog that is open, and the acknowledgements among the adapter calls.
\<close>

definition ackGhost :: "state \<Rightarrow> string set \<times> dialog_box list \<times> dialog_box option \<times> api_call list" where
  "ackGhost st =
     (handledPermission st, prompts st, dialog st, filter (\<lambda>a. ackKey a \<noteq> None) (apiLog st))"

text \<open>
  What holds of a key in every state the hook reaches: a dialog was raised for it at most
  once, and only after the key was marked as handled; the acknowledgements sent for it,
  plus the one an open dialog may still send, are no more than the dialogs raised for it;
  and both buttons of an open dialog acknowledge the same call.
\<close>

definition permInv :: "string \<Rightarrow> state \<Rightarrow> bool" where
  "permInv k st \<longleftrightarrow>
     (0 < promptsFor k st \<longrightarrow> k \<in> handledPermission st) \<and>
     promptsFor k st \<le> 1 \<and>
     acksFor k st + pendingFor k st \<le> promptsFor k st \<and>
     (\<forall>d. dialog st = Some d \<longrightarrow> ackKey (dlg_onCancel d) = ackKey (dlg_onConfirm d))"

text \<open>
  The message \<^verbatim>\<open>ensureToolMessage\<close> creates when the header is empty, and the continuation
  message \<^verbatim>\<open>splitAssistantForTool\<close> creates.
\<close>

definition toolMsg :: "msg_id \<Rightarrow> msg_id option \<Rightarrow> nat \<Rightarrow> message" where
  "toolMsg n a t =
     \<lparr>msg_id = n, role = RTool, kind = KTool, content = [], summary = None, anchorId = a,
      createdAt = t\<rparr>"

definition contMsg :: "msg_id \<Rightarrow> nat \<Rightarrow> message" where
  "contMsg n t =
     \<lparr>msg_id = n, role = RAssistant, kind = KText, content = [], summary = None,
      anchorId = None, createdAt = t\<rparr>"

text \<open>
  Appending text to the content of a message.
\<close>

definition addText :: "string \<Rightarrow> message \<Rightarrow> message" where
  "addText s m = m\<lparr>content := content m @ s\<rparr>"

text \<open>
  The request of the closure is the current one and was not cancelled, and \<open>tgt\<close> is the
  assistant message that receives its content deltas: \<^verbatim>\<open>activeAssistantMessageRef\<close> and
  the anchor both point to it. \<^verbatim>\<open>handleSend\<close> sets this up and a split moves it on.
\<close>

definition streaming :: "closure \<Rightarrow> state \<Rightarrow> msg_id \<Rightarrow> bool" where
  "streaming cl st tgt \<longleftrightarrow>
     activeRequestId st = Some (c_requestId cl) \<and> \<not> stopRequested st \<and>
     activeAssistantMessage st = Some tgt \<and>
     (\<exists>a. activeToolAnchor st = Some a \<and> a_requestId a = c_requestId cl \<and>
          a_sessionId a = c_sessionId cl \<and> assistantMessageId a = tgt)"

text \<open>
  The call id an event carries; the empty string for the events that carry none.
\<close>

fun eventCallId :: "event \<Rightarrow> string" where
  "eventCallId (ETool te) = toolCallId te"
| "eventCallId (EPermission p) = p_callId p"
| "eventCallId e = []"

text \<open>
  The event makes \<^verbatim>\<open>splitAssistantForTool\<close> split: it is a permission event, or a tool
  event of one of the four types whose branch calls it, and its call id is new (not in
  \<^verbatim>\<open>toolSplitRef\<close>, no tool message registered, permission not handled yet).
\<close>

definition splitsNow :: "closure \<Rightarrow> state \<Rightarrow> event \<Rightarrow> bool" where
  "splitsNow cl st e \<longleftrightarrow>
     (case e of
        ETool te \<Rightarrow>
          splits te \<and> toolCallId te \<noteq> [] \<and> toolCallId te \<notin> toolSplit st \<and>
          toolMessageMap st (toolKey (c_sessionId cl) (toolCallId te)) = None
      | EPermission p \<Rightarrow>
          p_callId p \<noteq> [] \<and> p_callId p \<notin> toolSplit st \<and>
          toolMessageMap st (toolKey (c_sessionId cl) (p_callId p)) = None \<and>
          toolKey (c_sessionId cl) (p_callId p) \<notin> handledPermission st
      | _ \<Rightarrow> False)"

text \<open>
  The tool and permission events that have something to show: a permission event always,
  a tool event when its branch reaches the tool message.
\<close>

fun writes :: "event \<Rightarrow> bool" where
  "writes (ETool te) = emits te"
| "writes (EPermission p) = True"
| "writes e = False"

text \<open>
  A \<^verbatim>\<open>patch_apply_end\<close> event that is the first of its call id creates its tool message
  through \<^verbatim>\<open>updateToolSummary\<close>, which passes no anchor; every other event passes
  the active assistant message.
\<close>

fun anchored :: "event \<Rightarrow> bool" where
  "anchored (ETool (PatchApplyEnd c ok applied failed err)) = False"
| "anchored e = True"

text \<open>
  The message list after a split of the message \<open>x\<close>: a tool message with id \<open>n\<close>,
  anchored to \<open>tgt\<close>, right after \<open>x\<close>, and the empty continuation message after it.
\<close>

definition splitShape ::
  "msg_id \<Rightarrow> msg_id \<Rightarrow> nat \<Rightarrow> message list \<Rightarrow> message \<Rightarrow> message list \<Rightarrow> message list option \<Rightarrow> bool" where
  "splitShape tgt n t pre x post v \<longleftrightarrow>
     (\<exists>tm. msg_id tm = n \<and> role tm = RTool \<and> kind tm = KTool \<and> anchorId tm = Some tgt \<and>
        v = Some (pre @ x # tm # contMsg (Suc n) t # post))"

text \<open>
  A state that differs from \<open>st1\<close> in the session list only, and whose message list has
  the shape of a split.
\<close>

definition afterSplit ::
  "string \<Rightarrow> msg_id \<Rightarrow> msg_id \<Rightarrow> message list \<Rightarrow> message \<Rightarrow> message list \<Rightarrow> state \<Rightarrow> state \<Rightarrow> bool" where
  "afterSplit sid tgt n pre x post st1 s \<longleftrightarrow>
     s\<lparr>sessions := sessions st1\<rparr> = st1 \<and> splitShape tgt n (clock st1) pre x post (view sid s)"

text \<open>
  \<^verbatim>\<open>anchor.lastToolId || anchor.assistantMessageId\<close>
\<close>

definition anchorAfter :: "state \<Rightarrow> msg_id option" where
  "anchorAfter st =
     (case activeToolAnchor st of
        None \<Rightarrow> None
      | Some a \<Rightarrow> (case lastToolId a of Some l \<Rightarrow> Some l | None \<Rightarrow> Some (assistantMessageId a)))"

text \<open>
  Fields that only a split, a send, a stop or the end of a stream change.
\<close>

definition splitFrame :: "state \<Rightarrow> msg_id option \<times> string set \<times> req_id option \<times> bool \<times> nat \<times> string set" where
  "splitFrame st =
     (activeAssistantMessage st, toolSplit st, activeRequestId st, stopRequested st, clock st,
      handledPermission st)"

text \<open>
  An update of a message that keeps its id, role and anchor.
\<close>

definition keeps :: "(message \<Rightarrow> message) \<Rightarrow> bool" where
  "keeps f \<longleftrightarrow> (\<forall>m. msg_id (f m) = msg_id m \<and> role (f m) = role m \<and> anchorId (f m) = anchorId m)"

text \<open>
  The tool messages of \<open>msgs'\<close> are those of \<open>msgs\<close>, unchanged and in the same order,
  with exactly one more among them: it has the id \<open>n\<close> and the anchor \<open>A\<close>.
\<close>

definition toolInserted :: "msg_id \<Rightarrow> msg_id option \<Rightarrow> message list \<Rightarrow> message list \<Rightarrow> bool" where
  "toolInserted n A msgs msgs' \<longleftrightarrow>
     (\<exists>l1 l2 tm. filter isToolMessage msgs = l1 @ l2 \<and> filter isToolMessage msgs' = l1 @ tm # l2
        \<and> msg_id tm = n \<and> anchorId tm = A)"

text \<open>
  The messages that are not tool messages are the same, in the same order.
\<close>

definition othersKept :: "message list \<Rightarrow> message list \<Rightarrow> bool" where
  "othersKept msgs msgs' \<longleftrightarrow>
     filter (\<lambda>m. \<not> isToolMessage m) msgs' = filter (\<lambda>m. \<not> isToolMessage m) msgs"

text \<open>
  No tool message was added or removed, each kept its id and anchor, and every tool message
  other than the one with id \<open>k\<close> is unchanged.
\<close>

definition sameTools :: "msg_id \<Rightarrow> message list \<Rightarrow> message list \<Rightarrow> bool" where
  "sameTools k msgs msgs' \<longleftrightarrow>
     map (\<lambda>m. (msg_id m, anchorId m)) (filter isToolMessage msgs') =
       map (\<lambda>m. (msg_id m, anchorId m)) (filter isToolMessage msgs) \<and>
     filter (\<lambda>m. isToolMessage m \<and> msg_id m \<noteq> k) msgs' =
       filter (\<lambda>m. isToolMessage m \<and> msg_id m \<noteq> k) msgs"

text \<open>
  The state \<open>s\<close> has the key registered to the new id \<open>n\<close>, and its message list is that
  of the start with one tool message inserted.
\<close>

definition created ::
  "string \<Rightarrow> string \<Rightarrow> msg_id \<Rightarrow> msg_id option \<Rightarrow> message list \<Rightarrow> state \<Rightarrow> state \<Rightarrow> bool" where
  "created sid key n A msgs st s \<longleftrightarrow>
     toolMessageMap s = (toolMessageMap st)(key \<mapsto> n) \<and>
     (\<exists>msgs'. view sid s = Some msgs' \<and> toolInserted n A msgs msgs' \<and> othersKept msgs msgs')"

text \<open>
  From \<open>st\<close> to \<open>s\<close> the registry of tool messages did not change and the tool messages of
  the session are the same up to the content and summary of the message \<open>k\<close>.
\<close>

definition seen :: "string \<Rightarrow> msg_id \<Rightarrow> state \<Rightarrow> state \<Rightarrow> bool" where
  "seen sid k st s \<longleftrightarrow>
     toolMessageMap s = toolMessageMap st \<and> rel_option (sameTools k) (view sid st) (view sid s)"

text \<open>
  The request counter and the current request, and the fact that a request id that was
  given out earlier is not the current one.
\<close>

definition reqFrame :: "state \<Rightarrow> req_id option \<times> nat" where
  "reqFrame st = (activeRequestId st, nextReqId st)"

definition notCurrent :: "req_id \<Rightarrow> state \<Rightarrow> bool" where
  "notCurrent r st \<longleftrightarrow> activeRequestId st \<noteq> Some r \<and> r < nextReqId st"

section \<open>Example data\<close>

definition exMsg :: "msg_id \<Rightarrow> role \<Rightarrow> kind \<Rightarrow> string \<Rightarrow> message" where
  "exMsg i r k c =
     \<lparr>msg_id = i, role = r, kind = k, content = c, summary = None, anchorId = None,
      createdAt = 0\<rparr>"

definition exSession :: "string \<Rightarrow> message list \<Rightarrow> session" where
  "exSession sid msgs =
     \<lparr>sess_id = sid, name = ''Codex 1'', agentId = ''codex'', agentLabel = ''Codex'',
      model = [], status = Some ''session_active'', intent = None, messages = msgs,
      sessCreatedAt = 0, updatedAt = 0, autoTitle = False\<rparr>"

definition exEnv :: env where
  "exEnv =
     \<lparr>t_patchApplying = ''Applying patch'', t_patchApplied = ''Patch applied'',
      t_patchFailed = ''Patch failed'', t_mcpToolCall = ''MCP tool call'',
      t_permissionTitle = ''Permission required'', t_permissionAllow = ''Allow'',
      t_permissionDeny = ''Deny'', t_permissionPatch = ''Apply patch'',
      t_permissionCommand = (\<lambda>c. ''Command: '' @ c), t_permissionCwd = (\<lambda>c. ''cwd: '' @ c),
      t_toolError = (\<lambda>m. ''Error: '' @ m), resolveIntentFromText = (\<lambda>x. None)\<rparr>"

definition exStart :: state where
  "exStart = initialState\<lparr>sessions := [exSession ''s1'' []], inputValue := ''hello''\<rparr>"

definition exClosure :: closure where
  "exClosure =
     \<lparr>c_requestId = 0, c_sessionId = ''s1'', c_assistantMessageId = 1, assistantText = [],
      streamError = None,
      messagesForModel =
        buildModelMessages (Some (exSession ''s1'' [])) [exMsg 0 RUser KText ''hello''] [],
      modelOverride = []\<rparr>"

definition exLive :: state where
  "exLive = snd (handleSend exEnv (Some (exSession ''s1'' [])) True [] exStart)"

definition exPermission :: permission where
  "exPermission =
     \<lparr>p_callId = ''p1'', p_source = ''codex'', p_title = [], p_command = ''rm -rf build'',
      p_hasPatch = False, p_filePath = [], p_locations = [], p_options = [],
      p_type = ''exec_approval_request'', p_summary = [], p_cwd = ''/repo''\<rparr>"

definition exUpdate :: tool_update where
  "exUpdate =
     \<lparr>u_title = [], u_kind = [], u_status = [], u_locations = [], u_content = [],
      u_rawOutputError = []\<rparr>"

definition exTwoLive :: state where
  "exTwoLive =
     snd (handleSend exEnv (Some (exSession ''s1'' [])) True []
            (initialState\<lparr>sessions := [exSession ''s1'' [], exSession ''s2'' []],
                          inputValue := ''hello''\<rparr>))"

definition exSplitRun :: "closure \<times> state" where
  "exSplitRun =
     deliverAll exEnv
       [EToken ''abc'', ETool (ToolCall ''c1'' exUpdate), EToken ''OC_ACTION: search foo'']
       (exClosure, exLive)"

definition exDirectiveRun :: "closure \<times> state" where
  "exDirectiveRun =
     deliverAll exEnv [EToken (''Done.'' @ [CHR 0x0A] @ ''OC_ACTION: search foo'')]
       (exClosure, exLive)"

definition exDirectiveSplit :: state where
  "exDirectiveSplit =
     splitTool ''s1'' ''oc-1''
       ((snd exDirectiveRun)\<lparr>sessions :=
          updateMessageContent ''s1'' (currentTarget (fst exDirectiveRun) (snd exDirectiveRun))
            (Fn (\<lambda>prevContent. snd (extractOcAction prevContent))) (clock (snd exDirectiveRun))
            (sessions (snd exDirectiveRun))\<rparr>)"

section \<open>Session store: properties\<close>

lemma findIndex_neg_iff: "findIndex P xs < 0 \<longleftrightarrow> (\<forall>x\<in>set xs. \<not> P x)"
  by (induction xs) (auto simp: Let_def)

lemma findIndex_split:
  "\<exists>x\<in>set xs. P x \<Longrightarrow>
   \<exists>pre x post. xs = pre @ x # post \<and> P x \<and> (\<forall>y\<in>set pre. \<not> P y)
     \<and> findIndex P xs = int (length pre)"
proof (induction xs)
  case Nil
  then show ?case by simp
next
  case (Cons a xs)
  show ?case
  proof (cases "P a")
    case True
    then have "a # xs = [] @ a # xs \<and> P a \<and> (\<forall>y\<in>set []. \<not> P y)
        \<and> findIndex P (a # xs) = int (length ([]::'a list))"
      by simp
    then show ?thesis by blast
  next
    case False
    with Cons.prems have "\<exists>x\<in>set xs. P x" by auto
    from Cons.IH [OF this] obtain pre x post where
      h: "xs = pre @ x # post" "P x" "\<forall>y\<in>set pre. \<not> P y" "findIndex P xs = int (length pre)"
      by blast
    from h False have "a # xs = (a # pre) @ x # post \<and> P x \<and> (\<forall>y\<in>set (a # pre). \<not> P y)
        \<and> findIndex P (a # xs) = int (length (a # pre))"
      by (simp add: Let_def)
    then show ?thesis by blast
  qed
qed

lemma insertInto_absent:
  "afterId \<notin> msg_id ` set msgs \<Longrightarrow> insertInto afterId m msgs = msgs @ [m]"
proof -
  assume "afterId \<notin> msg_id ` set msgs"
  then have "\<forall>x\<in>set msgs. \<not> msg_id x = afterId" by auto
  then have "findIndex (\<lambda>item. msg_id item = afterId) msgs < 0"
    by (simp add: findIndex_neg_iff)
  then show ?thesis by (simp add: insertInto_def)
qed

lemma insertInto_present:
  assumes "afterId \<in> msg_id ` set msgs"
  shows "\<exists>pre x post. msgs = pre @ x # post \<and> msg_id x = afterId
           \<and> afterId \<notin> msg_id ` set pre
           \<and> insertInto afterId m msgs = pre @ x # m # post"
proof -
  from assms have "\<exists>x\<in>set msgs. msg_id x = afterId" by auto
  from findIndex_split [of msgs "\<lambda>item. msg_id item = afterId", OF this]
  obtain pre x post where
    h: "msgs = pre @ x # post" "msg_id x = afterId" "\<forall>y\<in>set pre. msg_id y \<noteq> afterId"
       "findIndex (\<lambda>item. msg_id item = afterId) msgs = int (length pre)"
    by blast
  have "nat (int (length pre) + 1) = Suc (length pre)" by simp
  with h have "insertInto afterId m msgs = pre @ x # m # post"
    by (simp add: insertInto_def spliceInsert_def)
  moreover from h(3) have "afterId \<notin> msg_id ` set pre" by auto
  ultimately show ?thesis using h(1,2) by blast
qed

lemma insertInto_at:
  "afterId \<notin> msg_id ` set pre \<Longrightarrow> msg_id x = afterId \<Longrightarrow>
   insertInto afterId m (pre @ x # post) = pre @ x # m # post"
proof -
  assume a: "afterId \<notin> msg_id ` set pre" and b: "msg_id x = afterId"
  have "findIndex (\<lambda>item. msg_id item = afterId) (pre @ x # post) = int (length pre)"
    using a b by (induction pre) (auto simp: Let_def)
  moreover have "nat (int (length pre) + 1) = Suc (length pre)" by simp
  ultimately show ?thesis
    by (simp add: insertInto_def spliceInsert_def)
qed

lemma updateSession_absent:
  "\<forall>s\<in>set prev. sess_id s \<noteq> sessionId \<Longrightarrow> updateSession sessionId upd now prev = prev"
  unfolding updateSession_def by (induction prev) auto

lemma updateSession_length: "length (updateSession sessionId upd now prev) = length prev"
  by (simp add: updateSession_def)

lemma updateSession_nth:
  "i < length prev \<Longrightarrow>
   updateSession sessionId upd now prev ! i =
     (if sess_id (prev ! i) \<noteq> sessionId then prev ! i
      else (upd (prev ! i))\<lparr>updatedAt := now\<rparr>)"
  by (simp add: updateSession_def)

lemma sliceLast_suffix: "\<exists>older. xs = older @ sliceLast n xs"
proof -
  have "xs = take (length xs - n) xs @ sliceLast n xs"
    by (simp add: sliceLast_def)
  then show ?thesis by blast
qed

lemma sliceLast_length: "length (sliceLast n xs) = min n (length xs)"
  by (simp add: sliceLast_def)

lemma sliceLast_subset: "set (sliceLast n xs) \<subseteq> set xs"
  unfolding sliceLast_def by (rule set_drop_subset)

subsection \<open>Conversation context\<close>

text \<open>
  C7. The context built for a start-generation call is the system preamble followed by text
  messages of role user or assistant only: they are the last 12 (all of them when there are
  fewer) of the text user/assistant messages given, in their order; a thought or tool
  message is never among them. \<^verbatim>\<open>handleSend\<close> passes to the stream function the
  context built in this way from the messages of the session and the new user message.
\<close>

theorem buildModelMessages_context_C7:
  "(\<exists>conv older.
      buildModelMessages sess msgs extraSystem =
        \<lparr>mm_role = RSystem, mm_content = systemContent sess extraSystem\<rparr> #
        map toModelMessage conv
      \<and> filter isContextMessage msgs = older @ conv
      \<and> length conv = min 12 (length (filter isContextMessage msgs))
      \<and> (\<forall>m\<in>set conv. m \<in> set msgs \<and> kind m = KText \<and> kind m \<noteq> KThought
            \<and> kind m \<noteq> KTool \<and> (role m = RUser \<or> role m = RAssistant)))
   \<and> (\<forall>cl st'. handleSend ev (Some act) ready ctx st = (Some cl, st') \<longrightarrow>
         (\<exists>extra.
            messagesForModel cl =
              buildModelMessages (Some act)
                (messages act @
                 [\<lparr>msg_id = nextMsgId st, role = RUser, kind = KText,
                   content = sanitizeText (inputValue st), summary = None, anchorId = None,
                   createdAt = clock st\<rparr>])
                extra))"
proof -
  let ?f = "filter isContextMessage msgs"
  let ?conv = "sliceLast MAX_CONTEXT_MESSAGES ?f"
  obtain older where o: "?f = older @ ?conv"
    using sliceLast_suffix [of ?f MAX_CONTEXT_MESSAGES] by blast
  have len: "length ?conv = min 12 (length ?f)"
    by (simp add: sliceLast_length MAX_CONTEXT_MESSAGES_def)
  have mem: "\<forall>m\<in>set ?conv. m \<in> set msgs \<and> kind m = KText \<and> kind m \<noteq> KThought
           \<and> kind m \<noteq> KTool \<and> (role m = RUser \<or> role m = RAssistant)"
  proof
    fix m assume "m \<in> set ?conv"
    then have "m \<in> set ?f" using sliceLast_subset [of MAX_CONTEXT_MESSAGES ?f] by blast
    then show "m \<in> set msgs \<and> kind m = KText \<and> kind m \<noteq> KThought
           \<and> kind m \<noteq> KTool \<and> (role m = RUser \<or> role m = RAssistant)"
      by (simp add: isContextMessage_def)
  qed
  have "buildModelMessages sess msgs extraSystem =
       \<lparr>mm_role = RSystem, mm_content = systemContent sess extraSystem\<rparr> #
       map toModelMessage ?conv"
    by (simp add: buildModelMessages_def)
  with o len mem have first: "\<exists>conv older.
      buildModelMessages sess msgs extraSystem =
        \<lparr>mm_role = RSystem, mm_content = systemContent sess extraSystem\<rparr> #
        map toModelMessage conv
      \<and> filter isContextMessage msgs = older @ conv
      \<and> length conv = min 12 (length (filter isContextMessage msgs))
      \<and> (\<forall>m\<in>set conv. m \<in> set msgs \<and> kind m = KText \<and> kind m \<noteq> KThought
            \<and> kind m \<noteq> KTool \<and> (role m = RUser \<or> role m = RAssistant))"
    by blast
  have second: "\<exists>extra.
            messagesForModel cl =
              buildModelMessages (Some act)
                (messages act @
                 [\<lparr>msg_id = nextMsgId st, role = RUser, kind = KText,
                   content = sanitizeText (inputValue st), summary = None, anchorId = None,
                   createdAt = clock st\<rparr>])
                extra"
    if h: "handleSend ev (Some act) ready ctx st = (Some cl, st')" for cl st'
  proof (cases "sanitizeText (inputValue st) = [] \<or> \<not> ready \<or> isGenerating st")
    case True
    with h show ?thesis by (auto simp: handleSend_def Let_def)
  next
    case False
    with h have "messagesForModel cl =
        buildModelMessages (Some act)
          (messages act @
             [\<lparr>msg_id = nextMsgId st, role = RUser, kind = KText,
               content = sanitizeText (inputValue st), summary = None, anchorId = None,
               createdAt = clock st\<rparr>])
          (join [CHR 0x0A, CHR 0x0A]
             (nonEmpty [ctx,
                case (if truthy (intent act) then intent act
                      else resolveIntentFromText ev (sanitizeText (inputValue st))) of
                  None \<Rightarrow> [] | Some i \<Rightarrow> if i \<noteq> [] then INTENT_PROMPTS i else []]))"
      by (auto simp: handleSend_def Let_def createMessage_def split: if_splits)
    then show ?thesis by blast
  qed
  from first second show ?thesis by blast
qed

theorem buildModelMessages_context_C7_witness:
  "buildModelMessages None
     [exMsg 1 RUser KText ''hi'', exMsg 2 RAssistant KThought ''hm'',
      exMsg 3 RTool KTool ''ls'', exMsg 4 RAssistant KText ''yo''] [] =
   [\<lparr>mm_role = RSystem, mm_content = SYSTEM_PROMPT\<rparr>,
    \<lparr>mm_role = RUser, mm_content = ''hi''\<rparr>,
    \<lparr>mm_role = RAssistant, mm_content = ''yo''\<rparr>]"
proof -
  let ?msgs = "[exMsg 1 RUser KText ''hi'', exMsg 2 RAssistant KThought ''hm'',
      exMsg 3 RTool KTool ''ls'', exMsg 4 RAssistant KText ''yo'']"
  have f: "filter isContextMessage ?msgs = [exMsg 1 RUser KText ''hi'', exMsg 4 RAssistant KText ''yo'']"
    by (simp add: isContextMessage_def exMsg_def)
  from buildModelMessages_context_C7 [of None ?msgs "[]"]
  obtain conv older where
    h: "buildModelMessages None ?msgs [] =
          \<lparr>mm_role = RSystem, mm_content = systemContent None []\<rparr> # map toModelMessage conv"
       "filter isContextMessage ?msgs = older @ conv"
       "length conv = min 12 (length (filter isContextMessage ?msgs))"
    by blast
  have "length (older @ conv) = 2" using h(2) f by simp
  moreover have "length conv = 2" using h(3) f by simp
  ultimately have "older = []" by simp
  then have "conv = [exMsg 1 RUser KText ''hi'', exMsg 4 RAssistant KText ''yo'']"
    using h(2) f by simp
  with h(1) show ?thesis
    by (simp add: toModelMessage_def exMsg_def systemContent_def)
qed

subsection \<open>Insertion after a message\<close>

text \<open>
  C8. \<^verbatim>\<open>insertMessageAfter\<close> is total and keeps the number of sessions. In the
  session it targets, the new message goes right after the first message whose id is
  \<open>afterId\<close>, everything before and after it staying as it was; when no message has that id
  the new message is appended at the end. Other sessions are untouched.
\<close>

theorem insertMessageAfter_placement_C8:
  "length (insertMessageAfter sessionId afterId m now prev) = length prev \<and>
   (\<forall>i<length prev.
      (sess_id (prev ! i) \<noteq> sessionId \<longrightarrow>
         insertMessageAfter sessionId afterId m now prev ! i = prev ! i) \<and>
      (sess_id (prev ! i) = sessionId \<longrightarrow>
         (afterId \<notin> msg_id ` set (messages (prev ! i)) \<longrightarrow>
            messages (insertMessageAfter sessionId afterId m now prev ! i) =
              messages (prev ! i) @ [m]) \<and>
         (afterId \<in> msg_id ` set (messages (prev ! i)) \<longrightarrow>
            (\<exists>pre x post. messages (prev ! i) = pre @ x # post \<and> msg_id x = afterId
               \<and> afterId \<notin> msg_id ` set pre
               \<and> messages (insertMessageAfter sessionId afterId m now prev ! i) =
                   pre @ x # m # post))))"
proof (intro conjI allI impI)
  show "length (insertMessageAfter sessionId afterId m now prev) = length prev"
    by (simp add: insertMessageAfter_def updateSession_length)
next
  fix i assume "i < length prev" "sess_id (prev ! i) \<noteq> sessionId"
  then show "insertMessageAfter sessionId afterId m now prev ! i = prev ! i"
    by (simp add: insertMessageAfter_def updateSession_nth)
next
  fix i assume "i < length prev" "sess_id (prev ! i) = sessionId"
    "afterId \<notin> msg_id ` set (messages (prev ! i))"
  then show "messages (insertMessageAfter sessionId afterId m now prev ! i) =
      messages (prev ! i) @ [m]"
    by (simp add: insertMessageAfter_def updateSession_nth insertInto_absent)
next
  fix i assume i: "i < length prev" "sess_id (prev ! i) = sessionId"
    and a: "afterId \<in> msg_id ` set (messages (prev ! i))"
  from i have "messages (insertMessageAfter sessionId afterId m now prev ! i) =
      insertInto afterId m (messages (prev ! i))"
    by (simp add: insertMessageAfter_def updateSession_nth)
  with insertInto_present [OF a, of m]
  show "\<exists>pre x post. messages (prev ! i) = pre @ x # post \<and> msg_id x = afterId
               \<and> afterId \<notin> msg_id ` set pre
               \<and> messages (insertMessageAfter sessionId afterId m now prev ! i) =
                   pre @ x # m # post"
    by simp
qed

theorem insertMessageAfter_placement_C8_witness:
  "messages (insertMessageAfter ''s1'' 9 (exMsg 3 RTool KTool ''ls'') 5
       [exSession ''s1'' [exMsg 1 RUser KText ''hi'', exMsg 2 RAssistant KText ''yo'']] ! 0) =
     [exMsg 1 RUser KText ''hi'', exMsg 2 RAssistant KText ''yo'', exMsg 3 RTool KTool ''ls'']"
  using insertMessageAfter_placement_C8 [of "''s1''" 9 "exMsg 3 RTool KTool ''ls''" 5
      "[exSession ''s1'' [exMsg 1 RUser KText ''hi'', exMsg 2 RAssistant KText ''yo'']]"]
  by (simp add: exSession_def exMsg_def)

subsection \<open>Updating a message that is not there\<close>

text \<open>
  C9, as the claim states it, fails: the call is absorbed, and no message changes, but
  \<^verbatim>\<open>updateSession\<close> still stamps \<^verbatim>\<open>updatedAt\<close> on the session, so the session
  is not left unchanged.
\<close>

theorem updateMessageContent_missing_counterexample:
  "updateMessageContent ''s1'' 7 (Val ''x'') 5 [exSession ''s1'' [exMsg 1 RUser KText ''hi'']]
     \<noteq> [exSession ''s1'' [exMsg 1 RUser KText ''hi'']]"
  by (simp add: updateMessageContent_def updateSession_def exSession_def)

text \<open>
  C9, amended. When no message of the targeted session has the id, every session keeps its
  message list (content, order and count) and every field but \<^verbatim>\<open>updatedAt\<close>, which
  is set to the current time on the targeted session.
\<close>

theorem updateMessageContent_missing_C9:
  assumes "\<forall>s\<in>set prev. sess_id s = sessionId \<longrightarrow> messageId \<notin> msg_id ` set (messages s)"
  shows "updateMessageContent sessionId messageId u now prev =
           map (\<lambda>s. if sess_id s \<noteq> sessionId then s else s\<lparr>updatedAt := now\<rparr>) prev
         \<and> map messages (updateMessageContent sessionId messageId u now prev) =
           map messages prev"
proof -
  have same: "map (\<lambda>m. if msg_id m \<noteq> messageId then m
                 else m\<lparr>content := applyUpdater u (content m)\<rparr>) (messages s) = messages s"
    if "s \<in> set prev" "sess_id s = sessionId" for s
  proof -
    from assms that have "\<forall>m\<in>set (messages s). msg_id m \<noteq> messageId" by auto
    then show ?thesis by (simp add: map_idI)
  qed
  have eq: "updateMessageContent sessionId messageId u now prev =
           map (\<lambda>s. if sess_id s \<noteq> sessionId then s else s\<lparr>updatedAt := now\<rparr>) prev"
    unfolding updateMessageContent_def updateSession_def
    by (rule map_cong) (auto simp: same)
  have "map messages (map (\<lambda>s. if sess_id s \<noteq> sessionId then s else s\<lparr>updatedAt := now\<rparr>) prev)
          = map messages prev"
    by (induction prev) auto
  with eq show ?thesis by simp
qed

theorem updateMessageContent_missing_C9_witness:
  "updateMessageContent ''s1'' 7 (Val ''x'') 5 [exSession ''s1'' [exMsg 1 RUser KText ''hi'']]
     = [(exSession ''s1'' [exMsg 1 RUser KText ''hi''])\<lparr>updatedAt := 5\<rparr>]"
  using updateMessageContent_missing_C9 [of "[exSession ''s1'' [exMsg 1 RUser KText ''hi'']]"
      "''s1''" 7 "Val ''x''" 5]
  by (simp add: exSession_def exMsg_def)

subsection \<open>Mutators on a session that is not in the store\<close>

text \<open>
  C10. When no session of the store has the given id, each of the five mutators returns
  the session list as it was: nothing is created, changed or stamped.
\<close>

theorem mutators_unknown_session_C10:
  assumes "\<forall>s\<in>set prev. sess_id s \<noteq> sessionId"
  shows "updateSession sessionId upd now prev = prev
       \<and> appendMessages sessionId msgs now prev = prev
       \<and> updateMessageContent sessionId messageId u now prev = prev
       \<and> updateMessageSummary sessionId messageId sm now prev = prev
       \<and> insertMessageAfter sessionId afterId m now prev = prev"
  using assms
  by (simp add: appendMessages_def updateMessageContent_def updateMessageSummary_def
      insertMessageAfter_def updateSession_absent)

theorem mutators_unknown_session_C10_witness:
  "sess_id (exSession ''s1'' []) \<noteq> ''s2''
   \<and> updateSession ''s2'' (\<lambda>s. s\<lparr>status := Some ''error''\<rparr>) 5 [exSession ''s1'' []]
       = [exSession ''s1'' []]
   \<and> appendMessages ''s2'' [exMsg 1 RUser KText ''hi''] 5 [exSession ''s1'' []]
       = [exSession ''s1'' []]
   \<and> updateMessageContent ''s2'' 1 (Val ''x'') 5 [exSession ''s1'' []] = [exSession ''s1'' []]
   \<and> updateMessageSummary ''s2'' 1 ''done'' 5 [exSession ''s1'' []] = [exSession ''s1'' []]
   \<and> insertMessageAfter ''s2'' 1 (exMsg 2 RTool KTool []) 5 [exSession ''s1'' []]
       = [exSession ''s1'' []]"
proof -
  have h: "\<forall>s\<in>set [exSession ''s1'' []]. sess_id s \<noteq> ''s2''"
    by (simp add: exSession_def)
  have "sess_id (exSession ''s1'' []) \<noteq> ''s2''"
    by (simp add: exSession_def)
  with mutators_unknown_session_C10 [OF h] show ?thesis by blast
qed

section \<open>Lists and the session store: auxiliary facts\<close>

lemma find_map_pres:
  "(\<And>x. P (f x) = P x) \<Longrightarrow> find P (map f xs) = map_option f (find P xs)"
  by (induction xs) auto

lemma msgsOf_updateSession_messages:
  "msgsOf sid (updateSession sid (\<lambda>s. s\<lparr>messages := g (messages s)\<rparr>) t ss) =
     map_option g (msgsOf sid ss)"
proof -
  have "find (\<lambda>s. sess_id s = sid)
          (map (\<lambda>s. if sess_id s \<noteq> sid then s else (s\<lparr>messages := g (messages s)\<rparr>)\<lparr>updatedAt := t\<rparr>) ss)
        = map_option (\<lambda>s. if sess_id s \<noteq> sid then s else (s\<lparr>messages := g (messages s)\<rparr>)\<lparr>updatedAt := t\<rparr>)
            (find (\<lambda>s. sess_id s = sid) ss)"
    by (rule find_map_pres) simp
  then show ?thesis
    by (cases "find (\<lambda>s. sess_id s = sid) ss")
       (auto simp: msgsOf_def updateSession_def dest: find_Some_iff[THEN iffD1])
qed

lemma msgsOf_updateSession_frame:
  assumes "\<And>s. sess_id (upd s) = sess_id s" "\<And>s. messages (upd s) = messages s"
  shows "msgsOf sid (updateSession sid' upd t ss) = msgsOf sid ss"
proof -
  have "find (\<lambda>s. sess_id s = sid)
          (map (\<lambda>s. if sess_id s \<noteq> sid' then s else (upd s)\<lparr>updatedAt := t\<rparr>) ss)
        = map_option (\<lambda>s. if sess_id s \<noteq> sid' then s else (upd s)\<lparr>updatedAt := t\<rparr>)
            (find (\<lambda>s. sess_id s = sid) ss)"
    by (rule find_map_pres) (simp add: assms)
  then show ?thesis
    by (cases "find (\<lambda>s. sess_id s = sid) ss") (auto simp: msgsOf_def updateSession_def assms)
qed

lemma msgsOf_updateSession_other:
  assumes "sid' \<noteq> sid" "\<And>s. sess_id (upd s) = sess_id s"
  shows "msgsOf sid (updateSession sid' upd t ss) = msgsOf sid ss"
proof -
  have "find (\<lambda>s. sess_id s = sid)
          (map (\<lambda>s. if sess_id s \<noteq> sid' then s else (upd s)\<lparr>updatedAt := t\<rparr>) ss)
        = map_option (\<lambda>s. if sess_id s \<noteq> sid' then s else (upd s)\<lparr>updatedAt := t\<rparr>)
            (find (\<lambda>s. sess_id s = sid) ss)"
    by (rule find_map_pres) (simp add: assms)
  then show ?thesis using assms(1)
    by (cases "find (\<lambda>s. sess_id s = sid) ss")
       (auto simp: msgsOf_def updateSession_def dest: find_Some_iff[THEN iffD1])
qed

lemma msgsOf_appendMessages:
  "msgsOf sid (appendMessages sid ms t ss) = map_option (\<lambda>l. l @ ms) (msgsOf sid ss)"
  unfolding appendMessages_def by (rule msgsOf_updateSession_messages)

lemma msgsOf_updateMessageContent:
  "msgsOf sid (updateMessageContent sid k u t ss) = map_option (mutate k (setContent u)) (msgsOf sid ss)"
  unfolding updateMessageContent_def mutate_def setContent_def
  by (rule msgsOf_updateSession_messages)

lemma msgsOf_updateMessageSummary:
  "msgsOf sid (updateMessageSummary sid k sm t ss) = map_option (mutate k (setSummary sm)) (msgsOf sid ss)"
  unfolding updateMessageSummary_def mutate_def setSummary_def
  by (rule msgsOf_updateSession_messages)

lemma msgsOf_insertMessageAfter:
  "msgsOf sid (insertMessageAfter sid a m t ss) = map_option (insertInto a m) (msgsOf sid ss)"
  unfolding insertMessageAfter_def by (rule msgsOf_updateSession_messages)

lemma insertInto_split: "\<exists>pre post. msgs = pre @ post \<and> insertInto a m msgs = pre @ m # post"
proof (cases "a \<in> msg_id ` set msgs")
  case True
  from insertInto_present [OF True, of m] obtain pre x post where
    "msgs = pre @ x # post" "insertInto a m msgs = pre @ x # m # post" by blast
  then have "msgs = (pre @ [x]) @ post \<and> insertInto a m msgs = (pre @ [x]) @ m # post" by simp
  then show ?thesis by blast
next
  case False
  then have "msgs = msgs @ [] \<and> insertInto a m msgs = msgs @ m # []"
    by (simp add: insertInto_absent)
  then show ?thesis by blast
qed

lemma mutate_append [simp]: "mutate k f (xs @ ys) = mutate k f xs @ mutate k f ys"
  by (simp add: mutate_def)

lemma mutate_Cons: "mutate k f (x # xs) = (if msg_id x \<noteq> k then x else f x) # mutate k f xs"
  by (simp add: mutate_def)

lemma mutate_Nil [simp]: "mutate k f [] = []"
  by (simp add: mutate_def)

lemma mutate_absent: "k \<notin> msg_id ` set xs \<Longrightarrow> mutate k f xs = xs"
  unfolding mutate_def by (induction xs) auto

lemma mutate_mutate:
  "(\<And>m. msg_id (g m) = msg_id m) \<Longrightarrow> mutate k f (mutate k g xs) = mutate k (f \<circ> g) xs"
  unfolding mutate_def by (induction xs) auto

lemma setContent_id [simp]: "msg_id (setContent u m) = msg_id m"
  and setContent_role [simp]: "role (setContent u m) = role m"
  and setContent_anchor [simp]: "anchorId (setContent u m) = anchorId m"
  and setContent_kind [simp]: "kind (setContent u m) = kind m"
  by (simp_all add: setContent_def)

lemma setSummary_id [simp]: "msg_id (setSummary u m) = msg_id m"
  and setSummary_role [simp]: "role (setSummary u m) = role m"
  and setSummary_anchor [simp]: "anchorId (setSummary u m) = anchorId m"
  and setSummary_kind [simp]: "kind (setSummary u m) = kind m"
  by (simp_all add: setSummary_def)

lemma ensureToolMessage_present:
  "toolMessageMap st (toolKey sid c) = Some k \<Longrightarrow>
   ensureToolMessage sid c h kd ia an st = (k, st)"
  by (simp add: ensureToolMessage_def)

lemma appendTool_present:
  "toolMessageMap st (toolKey sid c) = Some k \<Longrightarrow>
   appendTool sid c text st =
     st\<lparr>sessions := updateMessageContent sid k (Fn (appendLine text)) (clock st) (sessions st)\<rparr>"
  by (simp add: appendTool_def appendToolLikeMessage_def ensureToolMessage_present Let_def)

lemma updateToolSummary_present:
  "toolMessageMap st (toolKey sid c) = Some k \<Longrightarrow>
   updateToolSummary sid c sm kd st =
     st\<lparr>sessions := updateMessageSummary sid k sm (clock st) (sessions st)\<rparr>"
  by (simp add: updateToolSummary_def ensureToolMessage_present)

section \<open>The permission gate\<close>

lemma acksFor_ghost: "acksFor k st = length (filter (\<lambda>a. ackKey a = Some k) (snd (snd (snd (ackGhost st)))))"
proof -
  have "filter (\<lambda>a. ackKey a = Some k) (filter (\<lambda>a. ackKey a \<noteq> None) xs) = filter (\<lambda>a. ackKey a = Some k) xs" for xs
    by (induction xs) auto
  then show ?thesis by (simp add: acksFor_def ackGhost_def)
qed

lemma ackGhost_eq_permInv: "ackGhost st' = ackGhost st \<Longrightarrow> permInv k st' = permInv k st"
  unfolding permInv_def acksFor_ghost
  by (simp add: promptsFor_def pendingFor_def ackGhost_def)

lemma ackGhost_eq_promptsFor: "ackGhost st' = ackGhost st \<Longrightarrow> promptsFor k st' = promptsFor k st"
  by (simp add: promptsFor_def ackGhost_def)

lemma ackGhost_eq_acksFor: "ackGhost st' = ackGhost st \<Longrightarrow> acksFor k st' = acksFor k st"
  by (simp add: acksFor_ghost)

lemma ackGhost_ensure: "ackGhost (snd (ensureToolMessage sid c h kd ia an st)) = ackGhost st"
  by (simp add: ensureToolMessage_def createMessage_def ackGhost_def Let_def split: option.splits)

lemma ackGhost_appendTool: "ackGhost (appendTool sid c text st) = ackGhost st"
  by (simp add: appendTool_def appendToolLikeMessage_def ensureToolMessage_def createMessage_def
      ackGhost_def Let_def split: option.splits)

lemma ackGhost_updateToolSummary: "ackGhost (updateToolSummary sid c sm kd st) = ackGhost st"
  by (simp add: updateToolSummary_def ensureToolMessage_def createMessage_def
      ackGhost_def Let_def split: option.splits)

lemma ackGhost_collapseThought: "ackGhost (collapseThought sid st) = ackGhost st"
  by (simp add: collapseThought_def ackGhost_def split: option.splits)

lemma ackGhost_splitTool: "ackGhost (splitTool sid c st) = ackGhost st"
  by (simp add: splitTool_def splitAssistantForTool_def ensureToolMessage_def createMessage_def
      collapseThought_def ackGhost_def Let_def split: option.splits)

lemma ackGhost_applyBlock: "ackGhost (applyBlock sid c st b) = ackGhost st"
  by (cases b) (simp_all add: applyBlock_def ackGhost_appendTool)

lemma ackGhost_foldBlocks: "ackGhost (foldl (applyBlock sid c) st bs) = ackGhost st"
  by (induction bs arbitrary: st) (simp_all add: ackGhost_applyBlock)

lemma ackGhost_toolBody: "ackGhost (toolBody ev sid e st) = ackGhost st"
  by (cases e)
     (simp_all add: Let_def ackGhost_appendTool ackGhost_splitTool ackGhost_updateToolSummary
        ackGhost_foldBlocks)

lemma ackGhost_onTool: "ackGhost (snd (onTool ev e (cl, st))) = ackGhost st"
  by (simp add: onTool_def ackGhost_toolBody)

lemma ackGhost_onToken: "ackGhost (snd (onToken tok (cl, st))) = ackGhost st"
  by (simp add: onToken_def ackGhost_def)

lemma ackGhost_onError: "ackGhost (snd (onError e (cl, st))) = ackGhost st"
  by (simp add: onError_def)

lemma ackGhost_onStatus: "ackGhost (snd (onStatus s (cl, st))) = ackGhost st"
  by (simp add: onStatus_def ackGhost_def Let_def)

lemma ackGhost_onReasoning: "ackGhost (snd (onReasoning d (cl, st))) = ackGhost st"
  by (simp add: onReasoning_def createMessage_def ackGhost_def Let_def split: option.splits)

lemma ackGhost_handleSend: "ackGhost (snd (handleSend ev act ready ctx st)) = ackGhost st"
  by (simp add: handleSend_def createMessage_def ackGhost_def Let_def split: option.splits)

lemma ackGhost_handleStop: "ackGhost (handleStop act st) = ackGhost st"
  by (simp add: handleStop_def ackGhost_def Let_def split: option.splits)

lemma ackGhost_resetRequest: "ackGhost (resetRequest r st) = ackGhost st"
  by (simp add: resetRequest_def ackGhost_def Let_def split: option.splits)

lemma ackGhost_runOcCommand: "ackGhost (runOcCommand sid args c outcome st) = ackGhost st"
proof -
  have g: "ackGhost (s\<lparr>apiLog := apiLog s @ [ExecOcCommand args]\<rparr>) = ackGhost s" for s
    by (simp add: ackGhost_def)
  show ?thesis
    by (cases outcome)
       (simp_all add: runOcCommand_def Let_def ackGhost_appendTool g split: option.splits)
qed

lemma ackGhost_finishStream: "ackGhost (finishStream ev oc outcome (cl, st)) = ackGhost st"
proof -
  have a: "ackGhost (s\<lparr>sessions := ss\<rparr>) = ackGhost s" for s ss
    by (simp add: ackGhost_def)
  have b: "ackGhost (s\<lparr>nextMsgId := n\<rparr>) = ackGhost s" for s n
    by (simp add: ackGhost_def)
  show ?thesis
  proof (cases "streamError cl")
    case None
    then show ?thesis
      by (simp add: finishStream_def Let_def ackGhost_resetRequest ackGhost_runOcCommand
          ackGhost_splitTool a split: option.splits)
  next
    case (Some e)
    then show ?thesis
      by (simp add: finishStream_def Let_def ackGhost_resetRequest createMessage_def a b)
  qed
qed

lemma ackKey_permissionDialog:
  "ackKey (dlg_onConfirm (permissionDialog ev sid p)) = Some (toolKey sid (p_callId p))"
  "ackKey (dlg_onCancel (permissionDialog ev sid p)) = Some (toolKey sid (p_callId p))"
  by (simp_all add: permissionDialog_def)

lemma ackGhost_setDialog:
  "ackGhost (setDialog d st) =
     (handledPermission st, prompts st @ [d], Some d, filter (\<lambda>a. ackKey a \<noteq> None) (apiLog st))"
  by (simp add: setDialog_def ackGhost_def)

lemma ackGhost_insertHandled:
  "ackGhost (st\<lparr>handledPermission := H\<rparr>) =
     (H, prompts st, dialog st, filter (\<lambda>a. ackKey a \<noteq> None) (apiLog st))"
  by (simp add: ackGhost_def)

lemma ackGhost_cong:
  "ackGhost a = ackGhost b \<Longrightarrow>
   handledPermission a = handledPermission b \<and> prompts a = prompts b \<and> dialog a = dialog b
   \<and> filter (\<lambda>x. ackKey x \<noteq> None) (apiLog a) = filter (\<lambda>x. ackKey x \<noteq> None) (apiLog b)"
  by (simp add: ackGhost_def)

lemma onPermission_fresh:
  assumes "activeRequestId st = Some (c_requestId cl)" "p_callId p \<noteq> []"
    "toolKey (c_sessionId cl) (p_callId p) \<notin> handledPermission st"
  shows "fst (onPermission ev p (cl, st)) = cl"
    and "ackGhost (snd (onPermission ev p (cl, st))) =
      (insert (toolKey (c_sessionId cl) (p_callId p)) (handledPermission st),
       prompts st @ [permissionDialog ev (c_sessionId cl) p],
       Some (permissionDialog ev (c_sessionId cl) p),
       filter (\<lambda>a. ackKey a \<noteq> None) (apiLog st))"
proof -
  let ?sid = "c_sessionId cl"
  let ?st1 = "st\<lparr>handledPermission := insert (toolKey ?sid (p_callId p)) (handledPermission st)\<rparr>"
  let ?st2 = "snd (splitAssistantForTool ?sid (p_callId p) KTool ?st1)"
  let ?st3 = "snd (appendToolLikeMessage ?sid (p_callId p)
                        (dlg_message (permissionDialog ev ?sid p)) KTool None ?st2)"
  have e: "onPermission ev p (cl, st) = (cl, setDialog (permissionDialog ev ?sid p) ?st3)"
    using assms by (simp add: onPermission_def Let_def)
  show "fst (onPermission ev p (cl, st)) = cl" by (simp add: e)
  have "ackGhost ?st3 = ackGhost ?st2"
    using ackGhost_appendTool [of ?sid "p_callId p" _ ?st2] by (simp add: appendTool_def)
  also have "\<dots> = ackGhost ?st1"
    using ackGhost_splitTool [of ?sid "p_callId p" ?st1] by (simp add: splitTool_def)
  finally have g: "ackGhost ?st3 = ackGhost ?st1" .
  from ackGhost_cong [OF g]
  show "ackGhost (snd (onPermission ev p (cl, st))) =
      (insert (toolKey (c_sessionId cl) (p_callId p)) (handledPermission st),
       prompts st @ [permissionDialog ev (c_sessionId cl) p],
       Some (permissionDialog ev (c_sessionId cl) p),
       filter (\<lambda>a. ackKey a \<noteq> None) (apiLog st))"
    by (simp add: e ackGhost_setDialog)
qed

lemma onPermission_ignored:
  "activeRequestId st \<noteq> Some (c_requestId cl) \<or> p_callId p = []
     \<or> toolKey (c_sessionId cl) (p_callId p) \<in> handledPermission st \<Longrightarrow>
   onPermission ev p (cl, st) = (cl, st)"
  by (auto simp: onPermission_def)

lemma activeRequestId_appendTool: "activeRequestId (appendTool sid c text st) = activeRequestId st"
  by (simp add: appendTool_def appendToolLikeMessage_def ensureToolMessage_def createMessage_def
      Let_def split: option.splits)

lemma activeRequestId_splitTool: "activeRequestId (splitTool sid c st) = activeRequestId st"
  by (simp add: splitTool_def splitAssistantForTool_def ensureToolMessage_def createMessage_def
      collapseThought_def Let_def split: option.splits)

lemma apiLog_appendToolLike:
  "apiLog (snd (appendToolLikeMessage sid c text kd ia st)) = apiLog st"
  by (simp add: appendToolLikeMessage_def ensureToolMessage_def createMessage_def
      Let_def split: option.splits)

lemma apiLog_splitAssistant: "apiLog (snd (splitAssistantForTool sid c kd st)) = apiLog st"
  by (simp add: splitAssistantForTool_def ensureToolMessage_def createMessage_def
      collapseThought_def Let_def split: option.splits)

lemma permInv_ghost:
  "permInv k st \<longleftrightarrow>
    (case ackGhost st of (H, ps, d, log) \<Rightarrow>
      (0 < length (filter (\<lambda>d. ackKey (dlg_onConfirm d) = Some k) ps) \<longrightarrow> k \<in> H) \<and>
      length (filter (\<lambda>d. ackKey (dlg_onConfirm d) = Some k) ps) \<le> 1 \<and>
      length (filter (\<lambda>a. ackKey a = Some k) log)
        + (case d of None \<Rightarrow> 0 | Some d \<Rightarrow> if ackKey (dlg_onConfirm d) = Some k then 1 else 0)
        \<le> length (filter (\<lambda>d. ackKey (dlg_onConfirm d) = Some k) ps) \<and>
      (\<forall>x. d = Some x \<longrightarrow> ackKey (dlg_onCancel x) = ackKey (dlg_onConfirm x)))"
  unfolding permInv_def acksFor_ghost
  by (simp add: promptsFor_def pendingFor_def ackGhost_def)

lemma promptsFor_ghost:
  "promptsFor k st = length (filter (\<lambda>d. ackKey (dlg_onConfirm d) = Some k) (fst (snd (ackGhost st))))"
  by (simp add: promptsFor_def ackGhost_def)

lemma permInv_onPermission: "permInv k st \<Longrightarrow> permInv k (snd (onPermission ev p (cl, st)))"
proof (cases "activeRequestId st \<noteq> Some (c_requestId cl) \<or> p_callId p = []
     \<or> toolKey (c_sessionId cl) (p_callId p) \<in> handledPermission st")
  case True
  assume "permInv k st"
  with onPermission_ignored [OF True] show ?thesis by simp
next
  case False
  assume inv: "permInv k st"
  from False have f: "activeRequestId st = Some (c_requestId cl)" "p_callId p \<noteq> []"
    "toolKey (c_sessionId cl) (p_callId p) \<notin> handledPermission st" by auto
  note g = onPermission_fresh(2) [OF f, of ev]
  show ?thesis
  proof (cases "k = toolKey (c_sessionId cl) (p_callId p)")
    case True
    with inv f(3) have z: "promptsFor k st = 0" "acksFor k st = 0"
      by (auto simp: permInv_def)
    then have "length (filter (\<lambda>d. ackKey (dlg_onConfirm d) = Some k) (prompts st)) = 0"
      "length (filter (\<lambda>a. ackKey a = Some k) (filter (\<lambda>a. ackKey a \<noteq> None) (apiLog st))) = 0"
      using acksFor_ghost [of k st] by (simp_all add: promptsFor_def ackGhost_def)
    then show ?thesis
      unfolding permInv_ghost [of k "snd (onPermission ev p (cl, st))"] g
      using True by (simp add: ackKey_permissionDialog)
  next
    case False
    from inv have i: "(0 < length (filter (\<lambda>d. ackKey (dlg_onConfirm d) = Some k) (prompts st)) \<longrightarrow> k \<in> handledPermission st)"
      "length (filter (\<lambda>d. ackKey (dlg_onConfirm d) = Some k) (prompts st)) \<le> 1"
      "length (filter (\<lambda>a. ackKey a = Some k) (filter (\<lambda>a. ackKey a \<noteq> None) (apiLog st)))
        + (case dialog st of None \<Rightarrow> 0 | Some d \<Rightarrow> if ackKey (dlg_onConfirm d) = Some k then 1 else 0)
        \<le> length (filter (\<lambda>d. ackKey (dlg_onConfirm d) = Some k) (prompts st))"
      unfolding permInv_ghost by (simp_all add: ackGhost_def)
    show ?thesis
      unfolding permInv_ghost [of k "snd (onPermission ev p (cl, st))"] g
      using False i by (auto simp: ackKey_permissionDialog split: option.splits if_splits)
  qed
qed

lemma promptsFor_onPermission: "promptsFor k st \<le> promptsFor k (snd (onPermission ev p (cl, st)))"
proof (cases "activeRequestId st \<noteq> Some (c_requestId cl) \<or> p_callId p = []
     \<or> toolKey (c_sessionId cl) (p_callId p) \<in> handledPermission st")
  case True
  with onPermission_ignored [OF True] show ?thesis by simp
next
  case False
  then have f: "activeRequestId st = Some (c_requestId cl)" "p_callId p \<noteq> []"
    "toolKey (c_sessionId cl) (p_callId p) \<notin> handledPermission st" by auto
  show ?thesis
    unfolding promptsFor_ghost [of k "snd (onPermission ev p (cl, st))"] onPermission_fresh(2) [OF f]
    by (simp add: promptsFor_def)
qed

lemma permInv_resolveDialog: "permInv k st \<Longrightarrow> permInv k (resolveDialog b st)"
proof (cases "dialog st")
  case None
  assume "permInv k st"
  with None show ?thesis by (simp add: resolveDialog_def)
next
  case (Some d)
  assume inv: "permInv k st"
  let ?x = "if b then dlg_onConfirm d else dlg_onCancel d"
  let ?st' = "st\<lparr>apiLog := apiLog st @ [?x], dialog := None\<rparr>"
  from inv Some have same: "ackKey (dlg_onCancel d) = ackKey (dlg_onConfirm d)"
    by (simp add: permInv_def)
  then have kx: "ackKey ?x = ackKey (dlg_onConfirm d)" by simp
  have r: "resolveDialog b st = ?st'" using Some by (simp add: resolveDialog_def)
  have p: "promptsFor k ?st' = promptsFor k st" by (simp add: promptsFor_def)
  have h: "handledPermission ?st' = handledPermission st" by simp
  have pe: "pendingFor k ?st' = 0" by (simp add: pendingFor_def)
  have pd: "pendingFor k st = (if ackKey (dlg_onConfirm d) = Some k then 1 else 0)"
    using Some by (simp add: pendingFor_def)
  have "acksFor k ?st' = acksFor k st + (if ackKey ?x = Some k then 1 else 0)"
    by (simp add: acksFor_def)
  then have ac: "acksFor k ?st' = acksFor k st + pendingFor k st"
    unfolding kx pd .
  have d: "dialog ?st' = None" by simp
  from inv show ?thesis
    unfolding r permInv_def p h pe ac d by simp
qed

lemma permInv_closeDialog: "permInv k st \<Longrightarrow> permInv k (closeDialog st)"
proof -
  assume inv: "permInv k st"
  let ?st' = "st\<lparr>dialog := None\<rparr>"
  have p: "promptsFor k ?st' = promptsFor k st" by (simp add: promptsFor_def)
  have h: "handledPermission ?st' = handledPermission st" by simp
  have pe: "pendingFor k ?st' = 0" by (simp add: pendingFor_def)
  have ac: "acksFor k ?st' = acksFor k st" by (simp add: acksFor_def)
  have d: "dialog ?st' = None" by simp
  from inv show ?thesis
    unfolding closeDialog_def permInv_def p h pe ac d by simp
qed

lemma permInv_frame: "ackGhost st' = ackGhost st \<Longrightarrow> permInv k st \<Longrightarrow> permInv k st'"
  using ackGhost_eq_permInv [of st' st k] by blast

lemma permInv_deliver: "permInv k st \<Longrightarrow> permInv k (snd (deliver ev (cl, st) e))"
proof (cases e)
  case (EToken x)
  assume "permInv k st"
  then show ?thesis unfolding EToken deliver.simps by (rule permInv_frame [OF ackGhost_onToken])
next
  case (EReasoning x)
  assume "permInv k st"
  then show ?thesis unfolding EReasoning deliver.simps
    by (rule permInv_frame [OF ackGhost_onReasoning])
next
  case (EStatus x)
  assume "permInv k st"
  then show ?thesis unfolding EStatus deliver.simps by (rule permInv_frame [OF ackGhost_onStatus])
next
  case (EPermission x)
  assume "permInv k st"
  then show ?thesis unfolding EPermission deliver.simps by (rule permInv_onPermission)
next
  case (ETool x)
  assume "permInv k st"
  then show ?thesis unfolding ETool deliver.simps by (rule permInv_frame [OF ackGhost_onTool])
next
  case (EError x)
  assume "permInv k st"
  then show ?thesis unfolding EError deliver.simps by (rule permInv_frame [OF ackGhost_onError])
qed

lemma permInv_step: "permInv k st \<Longrightarrow> permInv k (step ev st a)"
proof (cases a)
  case (ASend act ready ctx)
  assume "permInv k st"
  then show ?thesis unfolding ASend step.simps by (rule permInv_frame [OF ackGhost_handleSend])
next
  case (ASetInput v)
  assume "permInv k st"
  moreover have "ackGhost (st\<lparr>inputValue := v\<rparr>) = ackGhost st" by (simp add: ackGhost_def)
  ultimately show ?thesis unfolding ASetInput step.simps by (rule permInv_frame [rotated])
next
  case (AStop act)
  assume "permInv k st"
  then show ?thesis unfolding AStop step.simps by (rule permInv_frame [OF ackGhost_handleStop])
next
  case (AEvent cl e)
  assume "permInv k st"
  then show ?thesis unfolding AEvent step.simps by (rule permInv_deliver)
next
  case (AFinish cl oc outcome)
  assume "permInv k st"
  then show ?thesis unfolding AFinish step.simps
    by (rule permInv_frame [OF ackGhost_finishStream])
next
  case (AResolveDialog b)
  assume "permInv k st"
  then show ?thesis unfolding AResolveDialog step.simps by (rule permInv_resolveDialog)
next
  case ACloseDialog
  assume "permInv k st"
  then show ?thesis unfolding ACloseDialog step.simps by (rule permInv_closeDialog)
next
  case (ATick n)
  assume "permInv k st"
  moreover have "ackGhost (st\<lparr>clock := clock st + n\<rparr>) = ackGhost st" by (simp add: ackGhost_def)
  ultimately show ?thesis unfolding ATick step.simps by (rule permInv_frame [rotated])
next
  case (AStore f)
  assume "permInv k st"
  moreover have "ackGhost (st\<lparr>sessions := f (sessions st)\<rparr>) = ackGhost st"
    by (simp add: ackGhost_def)
  ultimately show ?thesis unfolding AStore step.simps by (rule permInv_frame [rotated])
qed

lemma promptsFor_frame: "ackGhost st' = ackGhost st \<Longrightarrow> promptsFor k st \<le> promptsFor k st'"
  using ackGhost_eq_promptsFor [of st' st k] by linarith

lemma promptsFor_deliver: "promptsFor k st \<le> promptsFor k (snd (deliver ev (cl, st) e))"
proof (cases e)
  case (EToken x)
  show ?thesis unfolding EToken deliver.simps by (rule promptsFor_frame [OF ackGhost_onToken])
next
  case (EReasoning x)
  show ?thesis unfolding EReasoning deliver.simps
    by (rule promptsFor_frame [OF ackGhost_onReasoning])
next
  case (EStatus x)
  show ?thesis unfolding EStatus deliver.simps by (rule promptsFor_frame [OF ackGhost_onStatus])
next
  case (EPermission x)
  show ?thesis unfolding EPermission deliver.simps by (rule promptsFor_onPermission)
next
  case (ETool x)
  show ?thesis unfolding ETool deliver.simps by (rule promptsFor_frame [OF ackGhost_onTool])
next
  case (EError x)
  show ?thesis unfolding EError deliver.simps by (rule promptsFor_frame [OF ackGhost_onError])
qed

lemma promptsFor_step: "promptsFor k st \<le> promptsFor k (step ev st a)"
proof (cases a)
  case (ASend act ready ctx)
  show ?thesis unfolding ASend step.simps by (rule promptsFor_frame [OF ackGhost_handleSend])
next
  case (ASetInput v)
  show ?thesis unfolding ASetInput step.simps by (simp add: promptsFor_def)
next
  case (AStop act)
  show ?thesis unfolding AStop step.simps by (rule promptsFor_frame [OF ackGhost_handleStop])
next
  case (AEvent cl e)
  show ?thesis unfolding AEvent step.simps by (rule promptsFor_deliver)
next
  case (AFinish cl oc outcome)
  show ?thesis unfolding AFinish step.simps by (rule promptsFor_frame [OF ackGhost_finishStream])
next
  case (AResolveDialog b)
  show ?thesis unfolding AResolveDialog step.simps
    by (cases "dialog st") (simp_all add: promptsFor_def resolveDialog_def)
next
  case ACloseDialog
  show ?thesis unfolding ACloseDialog step.simps by (simp add: promptsFor_def closeDialog_def)
next
  case (ATick n)
  show ?thesis unfolding ATick step.simps by (simp add: promptsFor_def)
next
  case (AStore f)
  show ?thesis unfolding AStore step.simps by (simp add: promptsFor_def)
qed

lemma permInv_run: "permInv k st \<Longrightarrow> permInv k (run ev acts st)"
  unfolding run_def by (induction acts arbitrary: st) (simp_all add: permInv_step)

lemma promptsFor_run: "promptsFor k st \<le> promptsFor k (run ev acts st)"
  unfolding run_def
proof (induction acts arbitrary: st)
  case Nil
  show ?case by simp
next
  case (Cons a acts)
  have "promptsFor k st \<le> promptsFor k (step ev st a)" by (rule promptsFor_step)
  also have "\<dots> \<le> promptsFor k (foldl (step ev) (step ev st a) acts)" by (rule Cons.IH)
  finally show ?case by simp
qed

text \<open>
  C6. In a request that is being streamed, a permission event for a call id that was not
  handled yet raises exactly one decision dialog, whose two actions acknowledge that call
  id, and sends nothing itself; a second permission event with the same call id changes
  nothing at all. Whatever happens afterwards, the number of dialogs raised for that
  session and call id stays one and at most one acknowledgement is ever sent for it.
\<close>

theorem permission_dedup_C6:
  assumes live: "activeRequestId st = Some (c_requestId cl)"
    and cid: "p_callId p \<noteq> []" "p_callId p' = p_callId p"
    and unseen: "toolKey (c_sessionId cl) (p_callId p) \<notin> handledPermission st"
    and inv: "permInv (toolKey (c_sessionId cl) (p_callId p)) st"
  shows "\<exists>st1. onPermission ev p (cl, st) = (cl, st1)
           \<and> prompts st1 = prompts st @ [permissionDialog ev (c_sessionId cl) p]
           \<and> dialog st1 = Some (permissionDialog ev (c_sessionId cl) p)
           \<and> apiLog st1 = apiLog st
           \<and> onPermission ev p' (cl, st1) = (cl, st1)
           \<and> (\<forall>acts. promptsFor (toolKey (c_sessionId cl) (p_callId p)) (run ev acts st1) = 1
                  \<and> acksFor (toolKey (c_sessionId cl) (p_callId p)) (run ev acts st1) \<le> 1)"
proof -
  let ?k = "toolKey (c_sessionId cl) (p_callId p)"
  let ?st1 = "snd (onPermission ev p (cl, st))"
  note g = onPermission_fresh [OF live cid(1) unseen, of ev]
  have e: "onPermission ev p (cl, st) = (cl, ?st1)"
    using g(1) by (metis prod.collapse)
  have pr: "prompts ?st1 = prompts st @ [permissionDialog ev (c_sessionId cl) p]"
    and dl: "dialog ?st1 = Some (permissionDialog ev (c_sessionId cl) p)"
    and hp: "?k \<in> handledPermission ?st1"
    using g(2) by (simp_all add: ackGhost_def)
  have al: "apiLog ?st1 = apiLog st"
    using live cid(1) unseen
    by (simp add: onPermission_def Let_def setDialog_def apiLog_appendToolLike
        apiLog_splitAssistant)
  have dup: "onPermission ev p' (cl, ?st1) = (cl, ?st1)"
    by (rule onPermission_ignored) (simp add: cid(2) hp)
  from inv unseen have z: "promptsFor ?k st = 0" by (auto simp: permInv_def)
  have one: "promptsFor ?k ?st1 = 1"
    using z pr by (simp add: promptsFor_def ackKey_permissionDialog)
  have inv1: "permInv ?k ?st1" using inv by (rule permInv_onPermission)
  have ever: "promptsFor ?k (run ev acts ?st1) = 1 \<and> acksFor ?k (run ev acts ?st1) \<le> 1" for acts
  proof -
    from permInv_run [OF inv1, of ev acts]
    have a: "promptsFor ?k (run ev acts ?st1) \<le> 1"
      and b: "acksFor ?k (run ev acts ?st1) + pendingFor ?k (run ev acts ?st1)
                \<le> promptsFor ?k (run ev acts ?st1)"
      by (simp_all add: permInv_def)
    from promptsFor_run [of ?k ?st1 ev acts] one have "1 \<le> promptsFor ?k (run ev acts ?st1)" by simp
    with a b show ?thesis by simp
  qed
  from e pr dl al dup ever show ?thesis by blast
qed

theorem permission_dedup_C6_witness:
  "promptsFor ''s1:p1''
     (run exEnv
        [AEvent exClosure (EPermission exPermission), AResolveDialog True,
         AEvent exClosure (EPermission exPermission), AResolveDialog False]
        (snd (onPermission exEnv exPermission (exClosure, exLive)))) = 1
   \<and> acksFor ''s1:p1''
     (run exEnv
        [AEvent exClosure (EPermission exPermission), AResolveDialog True,
         AEvent exClosure (EPermission exPermission), AResolveDialog False]
        (snd (onPermission exEnv exPermission (exClosure, exLive)))) \<le> 1"
proof -
  have k: "toolKey (c_sessionId exClosure) (p_callId exPermission) = ''s1:p1''"
    by (simp add: toolKey_def exClosure_def exPermission_def)
  have h1: "activeRequestId exLive = Some (c_requestId exClosure)"
    by code_simp
  have h2: "p_callId exPermission \<noteq> []"
    by (simp add: exPermission_def)
  have f: "handledPermission exLive = {}" "prompts exLive = []" "apiLog exLive = []"
    "dialog exLive = None"
    by code_simp+
  have h3: "toolKey (c_sessionId exClosure) (p_callId exPermission) \<notin> handledPermission exLive"
    by (simp add: f)
  have h4: "permInv (toolKey (c_sessionId exClosure) (p_callId exPermission)) exLive"
    by (simp add: permInv_def promptsFor_def acksFor_def pendingFor_def f)
  from permission_dedup_C6 [OF h1 h2 refl h3 h4, of exEnv]
  obtain st1 where
    a: "onPermission exEnv exPermission (exClosure, exLive) = (exClosure, st1)"
    and b: "\<forall>acts. promptsFor (toolKey (c_sessionId exClosure) (p_callId exPermission))
                     (run exEnv acts st1) = 1
                 \<and> acksFor (toolKey (c_sessionId exClosure) (p_callId exPermission))
                     (run exEnv acts st1) \<le> 1"
    by blast
  from a have "snd (onPermission exEnv exPermission (exClosure, exLive)) = st1" by simp
  with b show ?thesis unfolding k by blast
qed

section \<open>Message splits\<close>

lemma splitTool_fresh:
  assumes "activeToolAnchor st = Some a" "a_sessionId a = sid"
    "activeRequestId st = Some (a_requestId a)" "activeAssistantMessage st = Some tgt"
    "c \<notin> toolSplit st" "toolMessageMap st (toolKey sid c) = None"
  shows "splitTool sid c st =
     st\<lparr>sessions :=
          insertMessageAfter sid (nextMsgId st) (contMsg (Suc (nextMsgId st)) (clock st)) (clock st)
            (insertMessageAfter sid tgt (toolMsg (nextMsgId st) (Some tgt) (clock st)) (clock st)
               (sessions st)),
        toolMessageMap := (toolMessageMap st)(toolKey sid c \<mapsto> nextMsgId st),
        activeToolAnchor :=
          Some (a\<lparr>assistantMessageId := Suc (nextMsgId st), lastToolId := Some (nextMsgId st)\<rparr>),
        activeAssistantMessage := Some (Suc (nextMsgId st)),
        toolSplit := insert c (toolSplit st),
        expandedThoughtMessages := expandedThoughtMessages (collapseThought sid st),
        nextMsgId := Suc (Suc (nextMsgId st))\<rparr>"
proof -
  have c: "collapseThought sid st = st\<lparr>expandedThoughtMessages := expandedThoughtMessages (collapseThought sid st)\<rparr>"
    by (simp add: collapseThought_def split: option.splits)
  obtain E where e: "collapseThought sid st = st\<lparr>expandedThoughtMessages := E\<rparr>"
    and e': "E = expandedThoughtMessages (collapseThought sid st)"
    using c by blast
  show ?thesis
    using assms unfolding splitTool_def splitAssistantForTool_def e'[symmetric]
    by (simp add: e ensureToolMessage_def createMessage_def Let_def toolMsg_def contMsg_def)
qed

lemma view_sessions_update: "view sid (st\<lparr>sessions := ss\<rparr>) = msgsOf sid ss"
  by (simp add: view_def)

lemma splitShape_mutate:
  assumes sh: "splitShape tgt n t pre x post v"
    and fr: "n \<notin> msg_id ` set pre" "msg_id x \<noteq> n" "n \<notin> msg_id ` set post"
    and f: "\<And>m. msg_id (f m) = msg_id m" "\<And>m. role (f m) = role m" "\<And>m. kind (f m) = kind m"
      "\<And>m. anchorId (f m) = anchorId m"
  shows "splitShape tgt n t pre x post (map_option (mutate n f) v)"
proof -
  from sh obtain tm where tm: "msg_id tm = n" "role tm = RTool" "kind tm = KTool"
    "anchorId tm = Some tgt" "v = Some (pre @ x # tm # contMsg (Suc n) t # post)"
    unfolding splitShape_def by blast
  have "mutate n f (pre @ x # tm # contMsg (Suc n) t # post) = pre @ x # f tm # contMsg (Suc n) t # post"
    using fr tm(1) by (simp add: mutate_Cons mutate_absent contMsg_def)
  moreover have "msg_id (f tm) = n \<and> role (f tm) = RTool \<and> kind (f tm) = KTool \<and> anchorId (f tm) = Some tgt"
    using tm f by simp
  ultimately show ?thesis unfolding splitShape_def using tm(5) by auto
qed

lemma afterSplit_fields:
  assumes "afterSplit sid tgt n pre x post st1 s"
  shows "toolMessageMap s = toolMessageMap st1" "clock s = clock st1"
    "activeRequestId s = activeRequestId st1" "stopRequested s = stopRequested st1"
    "activeAssistantMessage s = activeAssistantMessage st1" "activeToolAnchor s = activeToolAnchor st1"
    "nextMsgId s = nextMsgId st1" "toolSplit s = toolSplit st1"
    "handledPermission s = handledPermission st1"
proof -
  from assms have e: "s\<lparr>sessions := sessions st1\<rparr> = st1" by (simp add: afterSplit_def)
  show "toolMessageMap s = toolMessageMap st1" using arg_cong [OF e, of toolMessageMap] by simp
  show "clock s = clock st1" using arg_cong [OF e, of clock] by simp
  show "activeRequestId s = activeRequestId st1" using arg_cong [OF e, of activeRequestId] by simp
  show "stopRequested s = stopRequested st1" using arg_cong [OF e, of stopRequested] by simp
  show "activeAssistantMessage s = activeAssistantMessage st1"
    using arg_cong [OF e, of activeAssistantMessage] by simp
  show "activeToolAnchor s = activeToolAnchor st1" using arg_cong [OF e, of activeToolAnchor] by simp
  show "nextMsgId s = nextMsgId st1" using arg_cong [OF e, of nextMsgId] by simp
  show "toolSplit s = toolSplit st1" using arg_cong [OF e, of toolSplit] by simp
  show "handledPermission s = handledPermission st1"
    using arg_cong [OF e, of handledPermission] by simp
qed

lemma afterSplit_appendTool:
  assumes a: "afterSplit sid tgt n pre x post st1 s"
    and k: "toolMessageMap st1 (toolKey sid c) = Some n"
    and fr: "n \<notin> msg_id ` set pre" "msg_id x \<noteq> n" "n \<notin> msg_id ` set post"
  shows "afterSplit sid tgt n pre x post st1 (appendTool sid c text s)"
proof -
  from a have e: "s\<lparr>sessions := sessions st1\<rparr> = st1"
    and sh: "splitShape tgt n (clock st1) pre x post (view sid s)"
    by (simp_all add: afterSplit_def)
  from k afterSplit_fields(1) [OF a] have "toolMessageMap s (toolKey sid c) = Some n" by simp
  then have ap: "appendTool sid c text s =
      s\<lparr>sessions := updateMessageContent sid n (Fn (appendLine text)) (clock s) (sessions s)\<rparr>"
    by (rule appendTool_present)
  have v: "view sid (appendTool sid c text s) =
      map_option (mutate n (setContent (Fn (appendLine text)))) (view sid s)"
    unfolding ap view_sessions_update msgsOf_updateMessageContent by (simp add: view_def)
  have "splitShape tgt n (clock st1) pre x post (view sid (appendTool sid c text s))"
    unfolding v by (rule splitShape_mutate [OF sh fr]) simp_all
  moreover have "(appendTool sid c text s)\<lparr>sessions := sessions st1\<rparr> = st1"
    unfolding ap using e by simp
  ultimately show ?thesis by (simp add: afterSplit_def)
qed

lemma afterSplit_updateToolSummary:
  assumes a: "afterSplit sid tgt n pre x post st1 s"
    and k: "toolMessageMap st1 (toolKey sid c) = Some n"
    and fr: "n \<notin> msg_id ` set pre" "msg_id x \<noteq> n" "n \<notin> msg_id ` set post"
  shows "afterSplit sid tgt n pre x post st1 (updateToolSummary sid c sm kd s)"
proof -
  from a have e: "s\<lparr>sessions := sessions st1\<rparr> = st1"
    and sh: "splitShape tgt n (clock st1) pre x post (view sid s)"
    by (simp_all add: afterSplit_def)
  from k afterSplit_fields(1) [OF a] have "toolMessageMap s (toolKey sid c) = Some n" by simp
  then have ap: "updateToolSummary sid c sm kd s =
      s\<lparr>sessions := updateMessageSummary sid n sm (clock s) (sessions s)\<rparr>"
    by (rule updateToolSummary_present)
  have v: "view sid (updateToolSummary sid c sm kd s) =
      map_option (mutate n (setSummary sm)) (view sid s)"
    unfolding ap view_sessions_update msgsOf_updateMessageSummary by (simp add: view_def)
  have "splitShape tgt n (clock st1) pre x post (view sid (updateToolSummary sid c sm kd s))"
    unfolding v by (rule splitShape_mutate [OF sh fr]) simp_all
  moreover have "(updateToolSummary sid c sm kd s)\<lparr>sessions := sessions st1\<rparr> = st1"
    unfolding ap using e by simp
  ultimately show ?thesis by (simp add: afterSplit_def)
qed

lemma afterSplit_splitTool:
  assumes str: "streaming cl st tgt" and sid: "sid = c_sessionId cl"
    and c: "c \<notin> toolSplit st" "toolMessageMap st (toolKey sid c) = None"
    and v: "view sid st = Some (pre @ x # post)" "msg_id x = tgt" "tgt \<notin> msg_id ` set pre"
    and fresh: "\<forall>m\<in>set (pre @ x # post). msg_id m < nextMsgId st"
  shows "afterSplit sid tgt (nextMsgId st) pre x post (splitTool sid c st) (splitTool sid c st)"
    and "toolMessageMap (splitTool sid c st) = (toolMessageMap st)(toolKey sid c \<mapsto> nextMsgId st)"
    and "streaming cl (splitTool sid c st) (Suc (nextMsgId st))"
    and "nextMsgId (splitTool sid c st) = Suc (Suc (nextMsgId st))"
    and "clock (splitTool sid c st) = clock st"
    and "toolSplit (splitTool sid c st) = insert c (toolSplit st)"
    and "handledPermission (splitTool sid c st) = handledPermission st"
proof -
  let ?n = "nextMsgId st"
  from str obtain a where a: "activeToolAnchor st = Some a" "a_requestId a = c_requestId cl"
    "a_sessionId a = c_sessionId cl" "assistantMessageId a = tgt"
    and r: "activeRequestId st = Some (c_requestId cl)" "\<not> stopRequested st"
      "activeAssistantMessage st = Some tgt"
    unfolding streaming_def by blast
  note ex = splitTool_fresh [OF a(1) a(3)[folded sid] r(1)[folded a(2)] r(3) c]
  show "toolMessageMap (splitTool sid c st) = (toolMessageMap st)(toolKey sid c \<mapsto> ?n)"
    and "nextMsgId (splitTool sid c st) = Suc (Suc ?n)"
    and "clock (splitTool sid c st) = clock st"
    and "toolSplit (splitTool sid c st) = insert c (toolSplit st)"
    and "handledPermission (splitTool sid c st) = handledPermission st"
    unfolding ex by simp_all
  show "streaming cl (splitTool sid c st) (Suc ?n)"
    unfolding ex streaming_def using a r by simp
  from fresh have f: "?n \<notin> msg_id ` set pre" "msg_id x \<noteq> ?n" "?n \<notin> msg_id ` set post"
    by auto
  have i1: "insertInto tgt (toolMsg ?n (Some tgt) (clock st)) (pre @ x # post) =
      pre @ x # toolMsg ?n (Some tgt) (clock st) # post"
    using v(2,3) by (simp add: insertInto_at)
  have i2: "insertInto ?n (contMsg (Suc ?n) (clock st)) ((pre @ [x]) @ toolMsg ?n (Some tgt) (clock st) # post) =
      (pre @ [x]) @ toolMsg ?n (Some tgt) (clock st) # contMsg (Suc ?n) (clock st) # post"
    by (rule insertInto_at) (use f in \<open>auto simp: toolMsg_def\<close>)
  have "view sid (splitTool sid c st) =
      Some (pre @ x # toolMsg ?n (Some tgt) (clock st) # contMsg (Suc ?n) (clock st) # post)"
    unfolding ex using v(1) i1 i2
    by (simp add: view_def msgsOf_insertMessageAfter)
  then have "splitShape tgt ?n (clock st) pre x post (view sid (splitTool sid c st))"
    unfolding splitShape_def by (auto simp: toolMsg_def)
  moreover have "clock (splitTool sid c st) = clock st" unfolding ex by simp
  ultimately show "afterSplit sid tgt ?n pre x post (splitTool sid c st) (splitTool sid c st)"
    by (simp add: afterSplit_def)
qed

lemma afterSplit_toolBody:
  assumes str: "streaming cl st tgt" and sid: "sid = c_sessionId cl"
    and sp: "splits e"
    and c: "toolCallId e \<notin> toolSplit st" "toolMessageMap st (toolKey sid (toolCallId e)) = None"
    and v: "view sid st = Some (pre @ x # post)" "msg_id x = tgt" "tgt \<notin> msg_id ` set pre"
    and fresh: "\<forall>m\<in>set (pre @ x # post). msg_id m < nextMsgId st"
  shows "afterSplit sid tgt (nextMsgId st) pre x post (splitTool sid (toolCallId e) st)
           (toolBody ev sid e st)"
proof -
  let ?c = "toolCallId e"
  let ?n = "nextMsgId st"
  let ?st1 = "splitTool sid ?c st"
  note s = afterSplit_splitTool [OF str sid c v fresh]
  from fresh have f: "?n \<notin> msg_id ` set pre" "msg_id x \<noteq> ?n" "?n \<notin> msg_id ` set post"
    by auto
  have k: "toolMessageMap ?st1 (toolKey sid ?c) = Some ?n" unfolding s(2) by simp
  note ap = afterSplit_appendTool [OF _ k f]
  note us = afterSplit_updateToolSummary [OF _ k f]
  show ?thesis
  proof (cases e)
    case (ToolCall c' u)
    with ap [OF s(1)] show ?thesis by simp
  next
    case (ExecCommandBegin c' cmd cwd)
    with ap [OF s(1)] show ?thesis by simp
  next
    case (PatchApplyBegin c')
    with ap [OF us [OF s(1)]] show ?thesis by simp
  next
    case (McpToolCallBegin c' nm)
    with ap [OF s(1)] show ?thesis by simp
  qed (use sp in simp_all)
qed

lemma setDialog_sessions: "(setDialog d s)\<lparr>sessions := ss\<rparr> = setDialog d (s\<lparr>sessions := ss\<rparr>)"
  by (simp add: setDialog_def)

lemma split_event:
  assumes str: "streaming cl st tgt"
    and sn: "splitsNow cl st e"
    and v: "view (c_sessionId cl) st = Some (pre @ x # post)" "msg_id x = tgt"
      "tgt \<notin> msg_id ` set pre"
    and fresh: "\<forall>m\<in>set (pre @ x # post). msg_id m < nextMsgId st"
  shows "fst (deliver ev (cl, st) e) = cl"
    and "splitShape tgt (nextMsgId st) (clock st) pre x post
           (view (c_sessionId cl) (snd (deliver ev (cl, st) e)))"
    and "streaming cl (snd (deliver ev (cl, st) e)) (Suc (nextMsgId st))"
    and "nextMsgId (snd (deliver ev (cl, st) e)) = Suc (Suc (nextMsgId st))"
    and "clock (snd (deliver ev (cl, st) e)) = clock st"
    and "toolMessageMap (snd (deliver ev (cl, st) e)) (toolKey (c_sessionId cl) (eventCallId e)) =
           Some (nextMsgId st)"
proof -
  let ?sid = "c_sessionId cl"
  let ?n = "nextMsgId st"
  from str have live: "activeRequestId st = Some (c_requestId cl)" by (simp add: streaming_def)
  from fresh have f: "?n \<notin> msg_id ` set pre" "msg_id x \<noteq> ?n" "?n \<notin> msg_id ` set post"
    by auto
  have "fst (deliver ev (cl, st) e) = cl
      \<and> splitShape tgt ?n (clock st) pre x post (view ?sid (snd (deliver ev (cl, st) e)))
      \<and> streaming cl (snd (deliver ev (cl, st) e)) (Suc ?n)
      \<and> nextMsgId (snd (deliver ev (cl, st) e)) = Suc (Suc ?n)
      \<and> clock (snd (deliver ev (cl, st) e)) = clock st
      \<and> toolMessageMap (snd (deliver ev (cl, st) e)) (toolKey ?sid (eventCallId e)) = Some ?n"
  proof (cases e)
    case (ETool te)
    with sn have te: "splits te" "toolCallId te \<noteq> []" "toolCallId te \<notin> toolSplit st"
      "toolMessageMap st (toolKey ?sid (toolCallId te)) = None"
      by (simp_all add: splitsNow_def)
    let ?st1 = "splitTool ?sid (toolCallId te) st"
    let ?st' = "toolBody ev ?sid te st"
    note s = afterSplit_splitTool [OF str refl te(3,4) v fresh]
    note a = afterSplit_toolBody [OF str refl te(1,3,4) v fresh, of ev]
    note fl = afterSplit_fields [OF a]
    have d: "deliver ev (cl, st) e = (cl, ?st')"
      using ETool live te(2) by (simp add: onTool_def)
    have "streaming cl ?st' (Suc ?n)"
      using s(3) unfolding streaming_def fl by simp
    moreover have "splitShape tgt ?n (clock st) pre x post (view ?sid ?st')"
      using a s(5) by (simp add: afterSplit_def)
    moreover have "toolMessageMap ?st' (toolKey ?sid (toolCallId te)) = Some ?n"
      unfolding fl s(2) by simp
    ultimately show ?thesis unfolding d using fl(2,7) s(4,5) ETool by simp
  next
    case (EPermission p)
    with sn have pe: "p_callId p \<noteq> []" "p_callId p \<notin> toolSplit st"
      "toolMessageMap st (toolKey ?sid (p_callId p)) = None"
      "toolKey ?sid (p_callId p) \<notin> handledPermission st"
      by (simp_all add: splitsNow_def)
    let ?h = "st\<lparr>handledPermission := insert (toolKey ?sid (p_callId p)) (handledPermission st)\<rparr>"
    let ?st1 = "splitTool ?sid (p_callId p) ?h"
    let ?st3 = "appendTool ?sid (p_callId p) (dlg_message (permissionDialog ev ?sid p)) ?st1"
    have strh: "streaming cl ?h tgt" using str by (simp add: streaming_def)
    have vh: "view ?sid ?h = Some (pre @ x # post)" using v(1) by (simp add: view_def)
    have frh: "\<forall>m\<in>set (pre @ x # post). msg_id m < nextMsgId ?h" using fresh by simp
    have ch: "p_callId p \<notin> toolSplit ?h" "toolMessageMap ?h (toolKey ?sid (p_callId p)) = None"
      using pe by simp_all
    note s = afterSplit_splitTool [OF strh refl ch vh v(2,3) frh]
    have k: "toolMessageMap ?st1 (toolKey ?sid (p_callId p)) = Some ?n" unfolding s(2) by simp
    have s1: "afterSplit ?sid tgt ?n pre x post ?st1 ?st1" using s(1) by simp
    have s3: "streaming cl ?st1 (Suc ?n)" using s(3) by simp
    have s4: "nextMsgId ?st1 = Suc (Suc ?n)" using s(4) by simp
    have s5: "clock ?st1 = clock st" using s(5) by simp
    have a: "afterSplit ?sid tgt ?n pre x post ?st1 ?st3"
      by (rule afterSplit_appendTool [OF s1 k f])
    note fl = afterSplit_fields [OF a]
    have d: "deliver ev (cl, st) e = (cl, setDialog (permissionDialog ev ?sid p) ?st3)"
      using EPermission live pe(1,4)
      by (simp add: onPermission_def Let_def appendTool_def splitTool_def)
    have "streaming cl ?st3 (Suc ?n)"
      using s3 unfolding streaming_def fl by simp
    then have "streaming cl (setDialog (permissionDialog ev ?sid p) ?st3) (Suc ?n)"
      by (simp add: streaming_def setDialog_def)
    moreover have "splitShape tgt ?n (clock st) pre x post (view ?sid ?st3)"
      using a s5 by (simp add: afterSplit_def)
    then have "splitShape tgt ?n (clock st) pre x post
        (view ?sid (setDialog (permissionDialog ev ?sid p) ?st3))"
      by (simp add: view_def setDialog_def)
    moreover have "toolMessageMap ?st3 (toolKey ?sid (p_callId p)) = Some ?n"
      unfolding fl k ..
    ultimately show ?thesis unfolding d using fl(2,7) s4 s5 EPermission
      by (simp add: setDialog_def)
  qed (use sn in \<open>simp_all add: splitsNow_def\<close>)
  then show "fst (deliver ev (cl, st) e) = cl"
    and "splitShape tgt (nextMsgId st) (clock st) pre x post
           (view (c_sessionId cl) (snd (deliver ev (cl, st) e)))"
    and "streaming cl (snd (deliver ev (cl, st) e)) (Suc (nextMsgId st))"
    and "nextMsgId (snd (deliver ev (cl, st) e)) = Suc (Suc (nextMsgId st))"
    and "clock (snd (deliver ev (cl, st) e)) = clock st"
    and "toolMessageMap (snd (deliver ev (cl, st) e)) (toolKey (c_sessionId cl) (eventCallId e)) =
           Some (nextMsgId st)"
    by simp_all
qed

lemma setContent_Fn_append: "setContent (Fn (\<lambda>p. p @ s)) = addText s"
  by (rule ext) (simp add: setContent_def addText_def applyUpdater_def)

lemma addText_id [simp]: "msg_id (addText s m) = msg_id m"
  by (simp add: addText_def)

lemma addText_addText: "addText t \<circ> addText s = addText (s @ t)"
  by (rule ext) (simp add: addText_def)

lemma addText_Nil: "mutate k (addText []) xs = xs"
  unfolding mutate_def addText_def by (induction xs) auto

lemma tokens_deliver:
  assumes "streaming cl st tgt"
  shows "\<exists>ss. deliverAll ev (map EToken ts) (cl, st) =
            (cl\<lparr>assistantText := assistantText cl @ concat ts\<rparr>, st\<lparr>sessions := ss\<rparr>)
          \<and> msgsOf (c_sessionId cl) ss =
              map_option (mutate tgt (addText (concat ts))) (msgsOf (c_sessionId cl) (sessions st))"
  using assms
proof (induction ts arbitrary: cl st)
  case Nil
  have "deliverAll ev (map EToken []) (cl, st) =
      (cl\<lparr>assistantText := assistantText cl @ concat []\<rparr>, st\<lparr>sessions := sessions st\<rparr>)"
    by (simp add: deliverAll_def)
  moreover have "msgsOf (c_sessionId cl) (sessions st) =
      map_option (mutate tgt (addText (concat []))) (msgsOf (c_sessionId cl) (sessions st))"
    by (cases "msgsOf (c_sessionId cl) (sessions st)") (simp_all add: addText_Nil)
  ultimately show ?case by blast
next
  case (Cons t ts)
  let ?sid = "c_sessionId cl"
  let ?cl1 = "cl\<lparr>assistantText := assistantText cl @ t\<rparr>"
  let ?ss1 = "updateMessageContent ?sid tgt (Fn (\<lambda>p. p @ t)) (clock st) (sessions st)"
  let ?st1 = "st\<lparr>sessions := ?ss1\<rparr>"
  from Cons.prems have one: "onToken t (cl, st) = (?cl1, ?st1)"
    by (simp add: onToken_def streaming_def currentTarget_def)
  from Cons.prems have str1: "streaming ?cl1 ?st1 tgt" by (simp add: streaming_def)
  from Cons.IH [OF str1] obtain ss where
    ss: "deliverAll ev (map EToken ts) (?cl1, ?st1) =
            (?cl1\<lparr>assistantText := assistantText ?cl1 @ concat ts\<rparr>, ?st1\<lparr>sessions := ss\<rparr>)"
      "msgsOf ?sid ss = map_option (mutate tgt (addText (concat ts))) (msgsOf ?sid ?ss1)"
    by auto
  have "deliverAll ev (map EToken (t # ts)) (cl, st) = deliverAll ev (map EToken ts) (?cl1, ?st1)"
    by (simp add: deliverAll_def one)
  with ss(1) have a: "deliverAll ev (map EToken (t # ts)) (cl, st) =
      (cl\<lparr>assistantText := assistantText cl @ concat (t # ts)\<rparr>, st\<lparr>sessions := ss\<rparr>)"
    by simp
  have "msgsOf ?sid ss =
      map_option (mutate tgt (addText (concat ts))) (map_option (mutate tgt (addText t)) (msgsOf ?sid (sessions st)))"
    unfolding ss(2) msgsOf_updateMessageContent setContent_Fn_append ..
  also have "\<dots> = map_option (mutate tgt (addText (concat (t # ts)))) (msgsOf ?sid (sessions st))"
    by (cases "msgsOf ?sid (sessions st)") (simp_all add: mutate_mutate addText_addText)
  finally show ?case using a by blast
qed

section \<open>Creation of tool messages\<close>

lemma ensureToolMessage_absent:
  assumes "toolMessageMap st (toolKey sid c) = None"
  shows "ensureToolMessage sid c [] KTool ia an st =
     (nextMsgId st,
      st\<lparr>sessions :=
           (case ia of
              Some a \<Rightarrow> insertMessageAfter sid a (toolMsg (nextMsgId st) an (clock st)) (clock st) (sessions st)
            | None \<Rightarrow> appendMessages sid [toolMsg (nextMsgId st) an (clock st)] (clock st) (sessions st)),
         toolMessageMap := (toolMessageMap st)(toolKey sid c \<mapsto> nextMsgId st),
         nextMsgId := Suc (nextMsgId st)\<rparr>)"
  using assms
  by (cases ia) (simp_all add: ensureToolMessage_def createMessage_def toolMsg_def Let_def)

lemma appendTool_absent_live:
  assumes "toolMessageMap st (toolKey sid c) = None" "anchorLive sid st"
    "activeToolAnchor st = Some a" "anchorAfter st = Some af"
  shows "appendTool sid c text st =
     st\<lparr>sessions :=
          updateMessageContent sid (nextMsgId st) (Fn (appendLine text)) (clock st)
            (insertMessageAfter sid af
               (toolMsg (nextMsgId st) (Some (assistantMessageId a)) (clock st)) (clock st)
               (sessions st)),
        toolMessageMap := (toolMessageMap st)(toolKey sid c \<mapsto> nextMsgId st),
        activeToolAnchor := Some (a\<lparr>lastToolId := Some (nextMsgId st)\<rparr>),
        nextMsgId := Suc (nextMsgId st)\<rparr>"
proof -
  from assms(3,4) have af: "(case lastToolId a of None \<Rightarrow> Some (assistantMessageId a) | Some l \<Rightarrow> Some l) = Some af"
    by (simp add: anchorAfter_def)
  show ?thesis
    using assms(1,2,3) af
    by (simp add: appendTool_def appendToolLikeMessage_def Let_def ensureToolMessage_absent)
qed

lemma appendTool_absent_dead:
  assumes "toolMessageMap st (toolKey sid c) = None" "\<not> anchorLive sid st"
  shows "appendTool sid c text st =
     st\<lparr>sessions :=
          updateMessageContent sid (nextMsgId st) (Fn (appendLine text)) (clock st)
            (appendMessages sid [toolMsg (nextMsgId st) None (clock st)] (clock st) (sessions st)),
        toolMessageMap := (toolMessageMap st)(toolKey sid c \<mapsto> nextMsgId st),
        nextMsgId := Suc (nextMsgId st)\<rparr>"
  using assms
  by (simp add: appendTool_def appendToolLikeMessage_def Let_def ensureToolMessage_absent)

lemma updateToolSummary_absent:
  assumes "toolMessageMap st (toolKey sid c) = None"
  shows "updateToolSummary sid c sm KTool st =
     st\<lparr>sessions :=
          updateMessageSummary sid (nextMsgId st) sm (clock st)
            (appendMessages sid [toolMsg (nextMsgId st) None (clock st)] (clock st) (sessions st)),
        toolMessageMap := (toolMessageMap st)(toolKey sid c \<mapsto> nextMsgId st),
        nextMsgId := Suc (nextMsgId st)\<rparr>"
  using assms
  by (simp add: updateToolSummary_def ensureToolMessage_absent)

lemma anchorLive_after:
  "anchorLive sid st \<Longrightarrow> \<exists>a af. activeToolAnchor st = Some a \<and> anchorAfter st = Some af"
  by (auto simp: anchorLive_def anchorAfter_def split: option.splits)

lemma splitFrame_sessions [simp]: "splitFrame (st\<lparr>sessions := ss\<rparr>) = splitFrame st"
  by (simp add: splitFrame_def)

lemma splitFrame_appendTool: "splitFrame (appendTool sid c text st) = splitFrame st"
proof (cases "toolMessageMap st (toolKey sid c)")
  case (Some k)
  then show ?thesis by (simp add: appendTool_present)
next
  case None
  show ?thesis
  proof (cases "anchorLive sid st")
    case True
    from anchorLive_after [OF True] obtain a af where
      "activeToolAnchor st = Some a" "anchorAfter st = Some af" by blast
    from appendTool_absent_live [OF None True this] show ?thesis by (simp add: splitFrame_def)
  next
    case False
    from appendTool_absent_dead [OF None False] show ?thesis by (simp add: splitFrame_def)
  qed
qed

lemma splitFrame_updateToolSummary: "splitFrame (updateToolSummary sid c sm KTool st) = splitFrame st"
proof (cases "toolMessageMap st (toolKey sid c)")
  case (Some k)
  then show ?thesis by (simp add: updateToolSummary_present)
next
  case None
  from updateToolSummary_absent [OF None] show ?thesis by (simp add: splitFrame_def)
qed

lemma splitFrame_applyBlock: "splitFrame (applyBlock sid c st b) = splitFrame st"
  by (cases b) (simp_all add: applyBlock_def splitFrame_appendTool)

lemma splitFrame_foldBlocks: "splitFrame (foldl (applyBlock sid c) st bs) = splitFrame st"
  by (induction bs arbitrary: st) (simp_all add: splitFrame_applyBlock)

lemma splitFrame_toolBody: "\<not> splits e \<Longrightarrow> splitFrame (toolBody ev sid e st) = splitFrame st"
  by (cases e)
     (simp_all add: Let_def splitFrame_appendTool splitFrame_updateToolSummary splitFrame_foldBlocks)

lemma keeps_setContent [simp]: "keeps (setContent u)"
  and keeps_setSummary [simp]: "keeps (setSummary sm)"
  by (simp_all add: keeps_def)

lemma filter_mutate:
  "keeps f \<Longrightarrow> (\<And>m. P (f m) = P m) \<Longrightarrow> filter P (mutate k f xs) = mutate k f (filter P xs)"
  unfolding mutate_def by (induction xs) auto

lemma filter_tool_mutate: "keeps f \<Longrightarrow> filter isToolMessage (mutate k f xs) = mutate k f (filter isToolMessage xs)"
  by (rule filter_mutate) (simp_all add: keeps_def isToolMessage_def)

lemma filter_nontool_mutate:
  "keeps f \<Longrightarrow> filter (\<lambda>m. \<not> isToolMessage m) (mutate k f xs) = mutate k f (filter (\<lambda>m. \<not> isToolMessage m) xs)"
  by (rule filter_mutate) (simp_all add: keeps_def isToolMessage_def)

lemma ids_filter: "n \<notin> msg_id ` set xs \<Longrightarrow> n \<notin> msg_id ` set (filter P xs)"
  by auto

lemma toolInserted_mutate:
  assumes t: "toolInserted n A msgs msgs'" and n: "n \<notin> msg_id ` set msgs" and f: "keeps f"
  shows "toolInserted n A msgs (mutate n f msgs')"
proof -
  from t obtain l1 l2 tm where h: "filter isToolMessage msgs = l1 @ l2"
    "filter isToolMessage msgs' = l1 @ tm # l2" "msg_id tm = n" "anchorId tm = A"
    unfolding toolInserted_def by blast
  from ids_filter [OF n, of isToolMessage] h(1)
  have nl: "n \<notin> msg_id ` set l1" "n \<notin> msg_id ` set l2" by auto
  have "filter isToolMessage (mutate n f msgs') = mutate n f (l1 @ tm # l2)"
    using filter_tool_mutate [OF f] h(2) by simp
  also have "\<dots> = l1 @ f tm # l2"
    using nl h(3) by (simp add: mutate_Cons mutate_absent)
  finally have "filter isToolMessage (mutate n f msgs') = l1 @ f tm # l2" .
  moreover from f h(3,4) have "msg_id (f tm) = n" "anchorId (f tm) = A" by (simp_all add: keeps_def)
  ultimately show ?thesis unfolding toolInserted_def using h(1) by blast
qed

lemma othersKept_mutate:
  assumes t: "othersKept msgs msgs'" and n: "n \<notin> msg_id ` set msgs" and f: "keeps f"
  shows "othersKept msgs (mutate n f msgs')"
proof -
  have "filter (\<lambda>m. \<not> isToolMessage m) (mutate n f msgs') =
      mutate n f (filter (\<lambda>m. \<not> isToolMessage m) msgs)"
    using filter_nontool_mutate [OF f] t by (simp add: othersKept_def)
  also have "\<dots> = filter (\<lambda>m. \<not> isToolMessage m) msgs"
    by (rule mutate_absent) (rule ids_filter [OF n])
  finally show ?thesis by (simp add: othersKept_def)
qed

lemma inserted_tool:
  assumes "msgs = pre @ post" "msgs' = pre @ toolMsg n A t # post"
  shows "toolInserted n A msgs msgs'" "othersKept msgs msgs'"
proof -
  have "filter isToolMessage msgs = filter isToolMessage pre @ filter isToolMessage post"
    and "filter isToolMessage msgs' = filter isToolMessage pre @ toolMsg n A t # filter isToolMessage post"
    using assms by (simp_all add: isToolMessage_def toolMsg_def)
  moreover have "msg_id (toolMsg n A t) = n" "anchorId (toolMsg n A t) = A"
    by (simp_all add: toolMsg_def)
  ultimately show "toolInserted n A msgs msgs'" unfolding toolInserted_def by blast
  show "othersKept msgs msgs'" using assms by (simp add: othersKept_def isToolMessage_def toolMsg_def)
qed

lemma created_appendTool_first:
  assumes k: "toolMessageMap st (toolKey sid c) = None"
    and v: "view sid st = Some msgs" and n: "nextMsgId st \<notin> msg_id ` set msgs"
  shows "created sid (toolKey sid c) (nextMsgId st)
           (if anchorLive sid st then map_option assistantMessageId (activeToolAnchor st) else None)
           msgs st (appendTool sid c text st)"
proof (cases "anchorLive sid st")
  case True
  from anchorLive_after [OF True] obtain a af where
    a: "activeToolAnchor st = Some a" "anchorAfter st = Some af" by blast
  note ex = appendTool_absent_live [OF k True a]
  let ?T = "toolMsg (nextMsgId st) (Some (assistantMessageId a)) (clock st)"
  from insertInto_split [of msgs af ?T] obtain pre post where
    sp: "msgs = pre @ post" "insertInto af ?T msgs = pre @ ?T # post" by blast
  have "view sid (appendTool sid c text st) =
      Some (mutate (nextMsgId st) (setContent (Fn (appendLine text))) (pre @ ?T # post))"
    unfolding ex using v sp(2)
    by (simp add: view_def msgsOf_updateMessageContent msgsOf_insertMessageAfter)
  moreover have "toolInserted (nextMsgId st) (Some (assistantMessageId a)) msgs
      (mutate (nextMsgId st) (setContent (Fn (appendLine text))) (pre @ ?T # post))"
    by (rule toolInserted_mutate [OF inserted_tool(1) [OF sp(1) refl] n]) simp
  moreover have "othersKept msgs
      (mutate (nextMsgId st) (setContent (Fn (appendLine text))) (pre @ ?T # post))"
    by (rule othersKept_mutate [OF inserted_tool(2) [OF sp(1) refl] n]) simp
  moreover have "toolMessageMap (appendTool sid c text st) =
      (toolMessageMap st)(toolKey sid c \<mapsto> nextMsgId st)"
    unfolding ex by simp
  ultimately show ?thesis using True a(1) by (simp add: created_def)
next
  case False
  note ex = appendTool_absent_dead [OF k False]
  let ?T = "toolMsg (nextMsgId st) None (clock st)"
  have sp: "msgs = msgs @ []" by simp
  have "view sid (appendTool sid c text st) =
      Some (mutate (nextMsgId st) (setContent (Fn (appendLine text))) (msgs @ ?T # []))"
    unfolding ex using v
    by (simp add: view_def msgsOf_updateMessageContent msgsOf_appendMessages)
  moreover have "toolInserted (nextMsgId st) None msgs
      (mutate (nextMsgId st) (setContent (Fn (appendLine text))) (msgs @ ?T # []))"
    by (rule toolInserted_mutate [OF inserted_tool(1) [OF sp refl] n]) simp
  moreover have "othersKept msgs
      (mutate (nextMsgId st) (setContent (Fn (appendLine text))) (msgs @ ?T # []))"
    by (rule othersKept_mutate [OF inserted_tool(2) [OF sp refl] n]) simp
  moreover have "toolMessageMap (appendTool sid c text st) =
      (toolMessageMap st)(toolKey sid c \<mapsto> nextMsgId st)"
    unfolding ex by simp
  ultimately show ?thesis using False by (simp add: created_def)
qed

lemma created_updateToolSummary_first:
  assumes k: "toolMessageMap st (toolKey sid c) = None"
    and v: "view sid st = Some msgs" and n: "nextMsgId st \<notin> msg_id ` set msgs"
  shows "created sid (toolKey sid c) (nextMsgId st) None msgs st (updateToolSummary sid c sm KTool st)"
proof -
  note ex = updateToolSummary_absent [OF k]
  let ?T = "toolMsg (nextMsgId st) None (clock st)"
  have sp: "msgs = msgs @ []" by simp
  have "view sid (updateToolSummary sid c sm KTool st) =
      Some (mutate (nextMsgId st) (setSummary sm) (msgs @ ?T # []))"
    unfolding ex using v
    by (simp add: view_def msgsOf_updateMessageSummary msgsOf_appendMessages)
  moreover have "toolInserted (nextMsgId st) None msgs
      (mutate (nextMsgId st) (setSummary sm) (msgs @ ?T # []))"
    by (rule toolInserted_mutate [OF inserted_tool(1) [OF sp refl] n]) simp
  moreover have "othersKept msgs (mutate (nextMsgId st) (setSummary sm) (msgs @ ?T # []))"
    by (rule othersKept_mutate [OF inserted_tool(2) [OF sp refl] n]) simp
  moreover have "toolMessageMap (updateToolSummary sid c sm KTool st) =
      (toolMessageMap st)(toolKey sid c \<mapsto> nextMsgId st)"
    unfolding ex by simp
  ultimately show ?thesis by (simp add: created_def)
qed

lemma created_appendTool_next:
  assumes c: "created sid (toolKey sid c) n A msgs st s" and n: "n \<notin> msg_id ` set msgs"
  shows "created sid (toolKey sid c) n A msgs st (appendTool sid c text s)"
proof -
  from c obtain msgs' where h: "toolMessageMap s = (toolMessageMap st)(toolKey sid c \<mapsto> n)"
    "view sid s = Some msgs'" "toolInserted n A msgs msgs'" "othersKept msgs msgs'"
    unfolding created_def by blast
  from h(1) have "toolMessageMap s (toolKey sid c) = Some n" by simp
  note ex = appendTool_present [OF this, of "text"]
  have "view sid (appendTool sid c text s) = Some (mutate n (setContent (Fn (appendLine text))) msgs')"
    unfolding ex using h(2) by (simp add: view_def msgsOf_updateMessageContent)
  moreover have "toolMessageMap (appendTool sid c text s) = (toolMessageMap st)(toolKey sid c \<mapsto> n)"
    unfolding ex using h(1) by simp
  ultimately show ?thesis
    using toolInserted_mutate [OF h(3) n, of "setContent (Fn (appendLine text))"]
      othersKept_mutate [OF h(4) n, of "setContent (Fn (appendLine text))"]
    by (simp add: created_def)
qed

lemma created_updateToolSummary_next:
  assumes c: "created sid (toolKey sid c) n A msgs st s" and n: "n \<notin> msg_id ` set msgs"
  shows "created sid (toolKey sid c) n A msgs st (updateToolSummary sid c sm KTool s)"
proof -
  from c obtain msgs' where h: "toolMessageMap s = (toolMessageMap st)(toolKey sid c \<mapsto> n)"
    "view sid s = Some msgs'" "toolInserted n A msgs msgs'" "othersKept msgs msgs'"
    unfolding created_def by blast
  from h(1) have "toolMessageMap s (toolKey sid c) = Some n" by simp
  note ex = updateToolSummary_present [OF this, of sm KTool]
  have "view sid (updateToolSummary sid c sm KTool s) = Some (mutate n (setSummary sm) msgs')"
    unfolding ex using h(2) by (simp add: view_def msgsOf_updateMessageSummary)
  moreover have "toolMessageMap (updateToolSummary sid c sm KTool s) = (toolMessageMap st)(toolKey sid c \<mapsto> n)"
    unfolding ex using h(1) by simp
  ultimately show ?thesis
    using toolInserted_mutate [OF h(3) n, of "setSummary sm"]
      othersKept_mutate [OF h(4) n, of "setSummary sm"]
    by (simp add: created_def)
qed

lemma created_toolBody:
  assumes k: "toolMessageMap st (toolKey sid (toolCallId e)) = None"
    and v: "view sid st = Some msgs" and n: "nextMsgId st \<notin> msg_id ` set msgs"
    and e: "\<not> splits e" "emits e"
  shows "created sid (toolKey sid (toolCallId e)) (nextMsgId st)
           (case e of PatchApplyEnd c ok ap fl er \<Rightarrow> None
            | _ \<Rightarrow> if anchorLive sid st then map_option assistantMessageId (activeToolAnchor st) else None)
           msgs st (toolBody ev sid e st)"
proof -
  let ?c = "toolCallId e"
  let ?A = "if anchorLive sid st then map_option assistantMessageId (activeToolAnchor st) else None"
  let ?C = "created sid (toolKey sid ?c) (nextMsgId st) ?A msgs st"
  let ?N = "created sid (toolKey sid ?c) (nextMsgId st) None msgs st"
  have first: "?C (appendTool sid ?c line st)" for line
    by (rule created_appendTool_first [OF k v n])
  have nxt: "?C s \<Longrightarrow> ?C (appendTool sid ?c line s)" for s line
    by (rule created_appendTool_next [OF _ n])
  have nxtN: "?N s \<Longrightarrow> ?N (appendTool sid ?c line s)" for s line
    by (rule created_appendTool_next [OF _ n])
  have any: "s = st \<or> ?C s \<Longrightarrow> ?C (appendTool sid ?c line s)" for s line
    using first nxt by blast
  have blk: "s = st \<or> ?C s \<Longrightarrow> applyBlock sid ?c s b = st \<or> ?C (applyBlock sid ?c s b)" for s b
    using any by (cases b) (auto simp: applyBlock_def)
  have blkC: "?C s \<Longrightarrow> ?C (applyBlock sid ?c s b)" for s b
    using nxt by (cases b) (auto simp: applyBlock_def)
  have blkE: "s = st \<or> ?C s \<Longrightarrow> b \<noteq> OtherBlock \<Longrightarrow> ?C (applyBlock sid ?c s b)" for s b
    using any by (cases b) (auto simp: applyBlock_def)
  have fldC: "?C s \<Longrightarrow> ?C (foldl (applyBlock sid ?c) s bs)" for s bs
    by (induction bs arbitrary: s) (simp_all add: blkC)
  have fld: "s = st \<or> ?C s \<Longrightarrow> foldl (applyBlock sid ?c) s bs = st \<or> ?C (foldl (applyBlock sid ?c) s bs)" for s bs
  proof (induction bs arbitrary: s)
    case Nil
    then show ?case by simp
  next
    case (Cons b bs)
    from blk [OF Cons.prems] have "applyBlock sid ?c s b = st \<or> ?C (applyBlock sid ?c s b)" .
    from Cons.IH [OF this] show ?case by simp
  qed
  have fldE: "s = st \<or> ?C s \<Longrightarrow> list_ex (\<lambda>b. b \<noteq> OtherBlock) bs \<Longrightarrow> ?C (foldl (applyBlock sid ?c) s bs)" for s bs
  proof (induction bs arbitrary: s)
    case Nil
    then show ?case by simp
  next
    case (Cons b bs)
    show ?case
    proof (cases "b \<noteq> OtherBlock")
      case True
      from fldC [OF blkE [OF Cons.prems(1) True]] show ?thesis by simp
    next
      case False
      with Cons.prems(2) have ex: "list_ex (\<lambda>b. b \<noteq> OtherBlock) bs" by simp
      from Cons.IH [OF blk [OF Cons.prems(1)] ex] show ?thesis by simp
    qed
  qed
  show ?thesis
  proof (cases e)
    case (ToolCallUpdate c u)
    let ?s1 = "if statusLine u \<noteq> [] then appendTool sid c (statusLine u) st else st"
    let ?s2 = "foldl (applyBlock sid c) ?s1 (u_content u)"
    have c: "?c = c" using ToolCallUpdate by simp
    have j1: "?s1 = st \<or> ?C ?s1" using first [of "statusLine u"] unfolding c by simp
    have j2: "?s2 = st \<or> ?C ?s2" using fld [OF j1 [folded c]] unfolding c .
    have "?C (if u_rawOutputError u \<noteq> [] then appendTool sid c (u_rawOutputError u) ?s2 else ?s2)"
    proof (cases "u_rawOutputError u \<noteq> []")
      case True
      then show ?thesis using any [OF j2 [folded c]] unfolding c by simp
    next
      case False
      show ?thesis
      proof (cases "statusLine u \<noteq> []")
        case True
        then have "?C ?s1" using first [of "statusLine u"] unfolding c by simp
        from fldC [OF this, of "u_content u"] False show ?thesis unfolding c by simp
      next
        case st: False
        with False e(2) ToolCallUpdate have "list_ex (\<lambda>b. b \<noteq> OtherBlock) (u_content u)" by simp
        from fldE [OF j1 [folded c] this] False show ?thesis unfolding c by simp
      qed
    qed
    then show ?thesis using ToolCallUpdate by (simp add: Let_def)
  next
    case (ExecCommandOutputDelta c chunk)
    with e(2) first [of chunk] show ?thesis by simp
  next
    case (ExecCommandEnd c code err)
    with first nxt show ?thesis by (simp add: Let_def)
  next
    case (PatchApplyEnd c ok ap fl er)
    have c: "?c = c" using PatchApplyEnd by simp
    have "?N (updateToolSummary sid c sm KTool st)" for sm
      using created_updateToolSummary_first [OF k v n] unfolding c .
    with nxtN [unfolded c] show ?thesis using PatchApplyEnd by (simp add: Let_def)
  next
    case (McpToolCallEnd c err)
    with e(2) first [of "''error: '' @ err"] show ?thesis by simp
  qed (use e in simp_all)
qed

lemma silent_toolBody: "\<not> emits e \<Longrightarrow> toolBody ev sid e st = st"
proof (cases e)
  case (ToolCallUpdate c u)
  assume "\<not> emits e"
  with ToolCallUpdate have h: "statusLine u = []" "\<not> list_ex (\<lambda>b. b \<noteq> OtherBlock) (u_content u)"
    "u_rawOutputError u = []" by simp_all
  have "foldl (applyBlock sid c) s bs = s" if "\<not> list_ex (\<lambda>b. b \<noteq> OtherBlock) bs" for s bs
    using that by (induction bs arbitrary: s) (simp_all add: applyBlock_def)
  with h show ?thesis using ToolCallUpdate by (simp add: Let_def)
qed simp_all

section \<open>Events for a call id that has a tool message\<close>

lemma sameTools_refl: "sameTools k msgs msgs"
  by (simp add: sameTools_def)

lemma sameTools_trans: "sameTools k a b \<Longrightarrow> sameTools k b c \<Longrightarrow> sameTools k a c"
  by (simp add: sameTools_def)

lemma map_mutate_keep: "(\<And>m. g (f m) = g m) \<Longrightarrow> map g (mutate k f xs) = map g xs"
  unfolding mutate_def by (induction xs) auto

lemma sameTools_mutate: "keeps f \<Longrightarrow> sameTools k msgs (mutate k f msgs)"
proof -
  assume f: "keeps f"
  have a: "map (\<lambda>m. (msg_id m, anchorId m)) (filter isToolMessage (mutate k f msgs)) =
      map (\<lambda>m. (msg_id m, anchorId m)) (filter isToolMessage msgs)"
    unfolding filter_tool_mutate [OF f]
    by (rule map_mutate_keep) (use f in \<open>simp add: keeps_def\<close>)
  have b: "filter (\<lambda>m. isToolMessage m \<and> msg_id m \<noteq> k) (mutate k f xs) =
      filter (\<lambda>m. isToolMessage m \<and> msg_id m \<noteq> k) xs" for xs
    unfolding mutate_def using f by (induction xs) (auto simp: keeps_def)
  from a b show ?thesis by (simp add: sameTools_def)
qed

lemma sameTools_insert:
  "\<not> isToolMessage C \<Longrightarrow> sameTools k msgs (insertInto a C msgs)"
proof -
  assume c: "\<not> isToolMessage C"
  from insertInto_split [of msgs a C] obtain pre post where
    "msgs = pre @ post" "insertInto a C msgs = pre @ C # post" by blast
  with c show ?thesis by (simp add: sameTools_def)
qed

lemma rel_option_map: "(\<And>x. R x (g x)) \<Longrightarrow> rel_option R v (map_option g v)"
  by (cases v) simp_all

lemma rel_option_refl': "(\<And>x. R x x) \<Longrightarrow> rel_option R v v"
  by (cases v) simp_all

lemma rel_option_trans':
  "(\<And>a b c. R a b \<Longrightarrow> R b c \<Longrightarrow> R a c) \<Longrightarrow> rel_option R u v \<Longrightarrow> rel_option R v w \<Longrightarrow> rel_option R u w"
  by (cases u; cases v; cases w) auto

lemma seen_refl: "seen sid k st st"
  by (simp add: seen_def rel_option_refl' sameTools_refl)

lemma seen_trans: "seen sid k a b \<Longrightarrow> seen sid k b c \<Longrightarrow> seen sid k a c"
  unfolding seen_def
  using rel_option_trans' [of "sameTools k" "view sid a" "view sid b" "view sid c"] sameTools_trans
  by auto

lemma seen_appendTool:
  assumes "toolMessageMap st (toolKey sid c) = Some k"
  shows "seen sid k st (appendTool sid c line st)"
  unfolding appendTool_present [OF assms] seen_def
  by (simp add: view_def msgsOf_updateMessageContent rel_option_map sameTools_mutate)

lemma seen_updateToolSummary:
  assumes "toolMessageMap st (toolKey sid c) = Some k"
  shows "seen sid k st (updateToolSummary sid c sm KTool st)"
  unfolding updateToolSummary_present [OF assms] seen_def
  by (simp add: view_def msgsOf_updateMessageSummary rel_option_map sameTools_mutate)

lemma collapseThought_map: "toolMessageMap (collapseThought sid st) = toolMessageMap st"
  by (simp add: collapseThought_def split: option.splits)

lemma collapseThought_other:
  "sessions (collapseThought sid st) = sessions st" "nextMsgId (collapseThought sid st) = nextMsgId st"
  "clock (collapseThought sid st) = clock st"
  by (simp_all add: collapseThought_def split: option.splits)

lemma seen_splitTool:
  assumes k: "toolMessageMap st (toolKey sid c) = Some k"
  shows "seen sid k st (splitTool sid c st)"
proof -
  have kc: "toolMessageMap (collapseThought sid st) (toolKey sid c) = Some k"
    using k by (simp add: collapseThought_map)
  have nt: "\<not> isToolMessage \<lparr>msg_id = i, role = RAssistant, kind = KText, content = [],
      summary = None, anchorId = None, createdAt = t\<rparr>" for i t
    by (simp add: isToolMessage_def)
  show ?thesis
  proof (cases "activeToolAnchor st")
    case None
    then show ?thesis by (simp add: splitTool_def splitAssistantForTool_def seen_refl)
  next
    case (Some a)
    show ?thesis
    proof (cases "a_sessionId a \<noteq> sid \<or> activeRequestId st \<noteq> Some (a_requestId a) \<or> c \<in> toolSplit st")
      case True
      with Some show ?thesis
        by (auto simp: splitTool_def splitAssistantForTool_def seen_refl Let_def)
    next
      case False
      with Some show ?thesis
        unfolding splitTool_def splitAssistantForTool_def seen_def
        by (simp add: Let_def ensureToolMessage_present [OF kc] createMessage_def
            collapseThought_map collapseThought_other view_def msgsOf_insertMessageAfter
            rel_option_map sameTools_insert nt)
    qed
  qed
qed

lemma seen_then:
  assumes "seen sid k st s" "toolMessageMap st (toolKey sid c) = Some k"
  shows "seen sid k st (appendTool sid c line s)"
    and "seen sid k st (updateToolSummary sid c sm KTool s)"
    and "seen sid k st (splitTool sid c s)"
proof -
  from assms have ks: "toolMessageMap s (toolKey sid c) = Some k" by (simp add: seen_def)
  show "seen sid k st (appendTool sid c line s)"
    by (rule seen_trans [OF assms(1) seen_appendTool [OF ks]])
  show "seen sid k st (updateToolSummary sid c sm KTool s)"
    by (rule seen_trans [OF assms(1) seen_updateToolSummary [OF ks]])
  show "seen sid k st (splitTool sid c s)"
    by (rule seen_trans [OF assms(1) seen_splitTool [OF ks]])
qed

lemma seen_toolBody:
  assumes k: "toolMessageMap st (toolKey sid (toolCallId e)) = Some k"
  shows "seen sid k st (toolBody ev sid e st)"
proof -
  let ?c = "toolCallId e"
  note r = seen_refl [of sid k st]
  have ap: "seen sid k st s \<Longrightarrow> seen sid k st (appendTool sid ?c line s)" for s line
    by (rule seen_then(1) [OF _ k])
  have us: "seen sid k st s \<Longrightarrow> seen sid k st (updateToolSummary sid ?c sm KTool s)" for s sm
    by (rule seen_then(2) [OF _ k])
  have sp: "seen sid k st s \<Longrightarrow> seen sid k st (splitTool sid ?c s)" for s
    by (rule seen_then(3) [OF _ k])
  have blk: "seen sid k st s \<Longrightarrow> seen sid k st (applyBlock sid ?c s b)" for s b
    using ap by (cases b) (auto simp: applyBlock_def)
  have fld: "seen sid k st s \<Longrightarrow> seen sid k st (foldl (applyBlock sid ?c) s bs)" for s bs
    by (induction bs arbitrary: s) (simp_all add: blk)
  show ?thesis
  proof (cases e)
    case (ToolCall c u)
    with ap [OF sp [OF r]] show ?thesis by simp
  next
    case (ToolCallUpdate c u)
    have c: "?c = c" using ToolCallUpdate by simp
    let ?s1 = "if statusLine u \<noteq> [] then appendTool sid c (statusLine u) st else st"
    have s1: "seen sid k st ?s1" using ap [OF r] r unfolding c by simp
    note s2 = fld [OF s1 [folded c], of "u_content u", unfolded c]
    from s2 ap [OF s2 [folded c], unfolded c] show ?thesis using ToolCallUpdate
      by (simp add: Let_def)
  next
    case (ExecCommandBegin c cmd cwd)
    with ap [OF sp [OF r]] show ?thesis by simp
  next
    case (ExecCommandOutputDelta c chunk)
    with ap [OF r] r show ?thesis by simp
  next
    case (ExecCommandEnd c code err)
    with ap [OF ap [OF r]] ap [OF r] show ?thesis by (simp add: Let_def)
  next
    case (PatchApplyBegin c)
    with ap [OF us [OF sp [OF r]]] show ?thesis by simp
  next
    case (PatchApplyEnd c ok applied failed err)
    have c: "?c = c" using PatchApplyEnd by simp
    let ?stat = "if ok then t_patchApplied ev else t_patchFailed ev"
    let ?s1 = "appendTool sid c ?stat (updateToolSummary sid c ?stat KTool st)"
    let ?s2 = "if applied \<noteq> [] then appendTool sid c (''applied: '' @ join '', '' applied) ?s1 else ?s1"
    let ?s3 = "if failed \<noteq> [] then appendTool sid c (''failed: '' @ join '', '' failed) ?s2 else ?s2"
    have s1: "seen sid k st ?s1" using ap [OF us [OF r]] unfolding c .
    have s2: "seen sid k st ?s2" using ap [OF s1 [folded c]] s1 unfolding c by simp
    have s3: "seen sid k st ?s3" using ap [OF s2 [folded c]] s2 unfolding c by simp
    have "seen sid k st (if err \<noteq> [] then appendTool sid c err ?s3 else ?s3)"
      using ap [OF s3 [folded c]] s3 unfolding c by simp
    then show ?thesis using PatchApplyEnd by (simp add: Let_def)
  next
    case (McpToolCallBegin c nm)
    with ap [OF sp [OF r]] show ?thesis by simp
  next
    case (McpToolCallEnd c err)
    with ap [OF r] r show ?thesis by simp
  next
    case (OtherTool c)
    with r show ?thesis by simp
  qed
qed

lemma seen_deliver:
  assumes k: "toolMessageMap st (toolKey (c_sessionId cl) (eventCallId e)) = Some k"
    and e: "eventCallId e \<noteq> []"
  shows "seen (c_sessionId cl) k st (snd (deliver ev (cl, st) e))"
proof (cases e)
  case (ETool te)
  with k have "toolMessageMap st (toolKey (c_sessionId cl) (toolCallId te)) = Some k" by simp
  from seen_toolBody [OF this] show ?thesis using ETool by (simp add: onTool_def seen_refl)
next
  case (EPermission p)
  let ?sid = "c_sessionId cl"
  show ?thesis
  proof (cases "activeRequestId st \<noteq> Some (c_requestId cl) \<or> p_callId p = []
     \<or> toolKey ?sid (p_callId p) \<in> handledPermission st")
    case True
    from onPermission_ignored [OF True] show ?thesis using EPermission by (simp add: seen_refl)
  next
    case False
    let ?h = "st\<lparr>handledPermission := insert (toolKey ?sid (p_callId p)) (handledPermission st)\<rparr>"
    let ?st3 = "appendTool ?sid (p_callId p) (dlg_message (permissionDialog ev ?sid p))
                  (splitTool ?sid (p_callId p) ?h)"
    have d: "deliver ev (cl, st) e = (cl, setDialog (permissionDialog ev ?sid p) ?st3)"
      using EPermission False by (simp add: onPermission_def Let_def appendTool_def splitTool_def)
    have h: "seen ?sid k st ?h" by (simp add: seen_def view_def rel_option_refl' sameTools_refl)
    from k EPermission have kp: "toolMessageMap st (toolKey ?sid (p_callId p)) = Some k" by simp
    have "seen ?sid k st ?st3"
      by (rule seen_then(1) [OF seen_then(3) [OF h kp] kp])
    then have "seen ?sid k st (setDialog (permissionDialog ev ?sid p) ?st3)"
      by (simp add: seen_def setDialog_def view_def)
    then show ?thesis unfolding d by simp
  qed
qed (use e in simp_all)

section \<open>Content deltas, splits and tool messages: the claims\<close>

lemma fresh_later:
  assumes "\<forall>m\<in>set xs. msg_id m < n" "n \<le> k"
  shows "k \<notin> msg_id ` set xs"
proof
  assume "k \<in> msg_id ` set xs"
  then obtain m where "m \<in> set xs" "msg_id m = k" by auto
  with assms show False by auto
qed

lemma deliverAll_append: "deliverAll ev (xs @ ys) cs = deliverAll ev ys (deliverAll ev xs cs)"
  by (simp add: deliverAll_def)

lemma deliverAll_Cons: "deliverAll ev (x # xs) cs = deliverAll ev xs (deliver ev cs x)"
  by (simp add: deliverAll_def)

lemma streaming_sessions: "streaming cl (st\<lparr>sessions := ss\<rparr>) tgt = streaming cl st tgt"
  by (simp add: streaming_def)

lemma streaming_text: "streaming (cl\<lparr>assistantText := a\<rparr>) st tgt = streaming cl st tgt"
  by (simp add: streaming_def)

lemma splitsNow_frame:
  "splitsNow (cl\<lparr>assistantText := a\<rparr>) (st\<lparr>sessions := ss\<rparr>) e = splitsNow cl st e"
  by (cases e) (simp_all add: splitsNow_def)

text \<open>
  C1, amended. While a request is streamed and not cancelled, the content of the targeted
  assistant message after any sequence of content deltas is what it was before followed by
  the concatenation of the deltas in delivery order (for the fresh placeholder: exactly
  that concatenation), and the closure's accumulated text grows by the same. When an event
  that performs the message split comes in between (a permission event, or a tool event of
  type tool_call, exec_command_begin, patch_apply_begin or mcp_tool_call_begin, for a call
  id that is new), the content accumulated so far stays in the closed message, a tool
  message anchored to it follows it, and the deltas delivered afterwards make up the
  content of the newly opened assistant message after that.
\<close>

theorem deltas_accumulate_C1:
  assumes str: "streaming cl st tgt"
    and v: "view (c_sessionId cl) st = Some (pre @ x # post)" "msg_id x = tgt"
      "tgt \<notin> msg_id ` set pre" "tgt \<notin> msg_id ` set post"
    and fresh: "\<forall>m\<in>set (pre @ x # post). msg_id m < nextMsgId st"
  shows "view (c_sessionId cl) (snd (deliverAll ev (map EToken ts) (cl, st))) =
           Some (pre @ x\<lparr>content := content x @ concat ts\<rparr> # post)
       \<and> assistantText (fst (deliverAll ev (map EToken ts) (cl, st))) = assistantText cl @ concat ts
       \<and> (splitsNow cl st e \<longrightarrow>
            (\<exists>tm. msg_id tm = nextMsgId st \<and> role tm = RTool \<and> anchorId tm = Some tgt \<and>
               view (c_sessionId cl)
                 (snd (deliverAll ev (map EToken ts @ e # map EToken ts') (cl, st))) =
               Some (pre @ x\<lparr>content := content x @ concat ts\<rparr> # tm #
                     \<lparr>msg_id = Suc (nextMsgId st), role = RAssistant, kind = KText,
                      content = concat ts', summary = None, anchorId = None,
                      createdAt = clock st\<rparr> # post)))"
proof -
  let ?sid = "c_sessionId cl"
  let ?n = "nextMsgId st"
  let ?x = "x\<lparr>content := content x @ concat ts\<rparr>"
  let ?cl1 = "cl\<lparr>assistantText := assistantText cl @ concat ts\<rparr>"
  from tokens_deliver [OF str, of ev ts] obtain ss where
    d1: "deliverAll ev (map EToken ts) (cl, st) = (?cl1, st\<lparr>sessions := ss\<rparr>)"
    and m1: "msgsOf ?sid ss = map_option (mutate tgt (addText (concat ts))) (msgsOf ?sid (sessions st))"
    by blast
  let ?st1 = "st\<lparr>sessions := ss\<rparr>"
  have mx: "mutate tgt (addText (concat ts)) (pre @ x # post) = pre @ ?x # post"
    using v(2,3,4) by (simp add: mutate_Cons mutate_absent addText_def)
  have v1: "view ?sid ?st1 = Some (pre @ ?x # post)"
    using m1 v(1) mx by (simp add: view_def)
  have part1: "view ?sid (snd (deliverAll ev (map EToken ts) (cl, st))) = Some (pre @ ?x # post)"
    unfolding d1 using v1 by simp
  have part2: "assistantText (fst (deliverAll ev (map EToken ts) (cl, st))) = assistantText cl @ concat ts"
    unfolding d1 by simp
  have part3: "\<exists>tm. msg_id tm = ?n \<and> role tm = RTool \<and> anchorId tm = Some tgt \<and>
               view ?sid (snd (deliverAll ev (map EToken ts @ e # map EToken ts') (cl, st))) =
               Some (pre @ ?x # tm #
                     \<lparr>msg_id = Suc ?n, role = RAssistant, kind = KText,
                      content = concat ts', summary = None, anchorId = None,
                      createdAt = clock st\<rparr> # post)"
    if sn: "splitsNow cl st e"
  proof -
    have str1: "streaming ?cl1 ?st1 tgt" using str by (simp add: streaming_def)
    have sn1: "splitsNow ?cl1 ?st1 e" using sn by (simp add: splitsNow_frame)
    have vv: "view (c_sessionId ?cl1) ?st1 = Some (pre @ ?x # post)" using v1 by simp
    have idx: "msg_id ?x = tgt" using v(2) by simp
    have fr1: "\<forall>m\<in>set (pre @ ?x # post). msg_id m < nextMsgId ?st1" using fresh by simp
    note se = split_event [OF str1 sn1 vv idx v(3) fr1, of ev]
    let ?cs2 = "deliver ev (?cl1, ?st1) e"
    let ?st2 = "snd ?cs2"
    from se(1) have cs2: "?cs2 = (?cl1, ?st2)" by (metis prod.collapse)
    from se(2) obtain tm where tm: "msg_id tm = ?n" "role tm = RTool" "anchorId tm = Some tgt"
      "view ?sid ?st2 = Some (pre @ ?x # tm # contMsg (Suc ?n) (clock st) # post)"
      unfolding splitShape_def by auto
    have str2: "streaming ?cl1 ?st2 (Suc ?n)" using se(3) by simp
    from tokens_deliver [OF str2, of ev ts'] obtain ss3 where
      d3: "deliverAll ev (map EToken ts') (?cl1, ?st2) =
             (?cl1\<lparr>assistantText := assistantText ?cl1 @ concat ts'\<rparr>, ?st2\<lparr>sessions := ss3\<rparr>)"
      and m3: "msgsOf (c_sessionId ?cl1) ss3 =
             map_option (mutate (Suc ?n) (addText (concat ts'))) (msgsOf (c_sessionId ?cl1) (sessions ?st2))"
      by blast
    have f: "Suc ?n \<notin> msg_id ` set pre" "msg_id x \<noteq> Suc ?n" "Suc ?n \<notin> msg_id ` set post"
      using fresh_later [OF fresh, of "Suc ?n"] by auto
    have "mutate (Suc ?n) (addText (concat ts')) (pre @ ?x # tm # contMsg (Suc ?n) (clock st) # post)
        = pre @ ?x # tm # addText (concat ts') (contMsg (Suc ?n) (clock st)) # post"
      using f tm(1) by (simp add: mutate_Cons mutate_absent contMsg_def)
    with m3 tm(4) have "msgsOf ?sid ss3 =
        Some (pre @ ?x # tm # addText (concat ts') (contMsg (Suc ?n) (clock st)) # post)"
      by (simp add: view_def)
    moreover have "deliverAll ev (map EToken ts @ e # map EToken ts') (cl, st) =
        deliverAll ev (map EToken ts') (?cl1, ?st2)"
      unfolding deliverAll_append d1 deliverAll_Cons cs2 [symmetric] ..
    ultimately have "view ?sid (snd (deliverAll ev (map EToken ts @ e # map EToken ts') (cl, st))) =
        Some (pre @ ?x # tm # addText (concat ts') (contMsg (Suc ?n) (clock st)) # post)"
      unfolding d3 by (simp add: view_def)
    with tm(1,2,3) show ?thesis by (auto simp: addText_def contMsg_def)
  qed
  from part1 part2 part3 show ?thesis by blast
qed

text \<open>
  C3, amended. For a call id that is new, the first tool event splits exactly when its type
  is tool_call, exec_command_begin, patch_apply_begin or mcp_tool_call_begin: the targeted
  assistant message is closed, a new tool message anchored to it is placed right after it,
  and a new empty assistant message after that becomes the target, so that the next
  content delta goes there. A first event of any other type (tool_call_update,
  exec_command_output_delta, exec_command_end, patch_apply_end, mcp_tool_call_end) never
  splits: the target stays, no call id is marked as split, and the messages that are not
  tool messages stay as they were.
\<close>

theorem tool_split_C3:
  assumes str: "streaming cl st tgt"
    and c: "toolCallId e \<noteq> []" "toolCallId e \<notin> toolSplit st"
      "toolMessageMap st (toolKey (c_sessionId cl) (toolCallId e)) = None"
    and v: "view (c_sessionId cl) st = Some (pre @ x # post)" "msg_id x = tgt"
      "tgt \<notin> msg_id ` set pre"
    and fresh: "\<forall>m\<in>set (pre @ x # post). msg_id m < nextMsgId st"
  shows "(splits e \<longrightarrow>
           (\<exists>tm. msg_id tm = nextMsgId st \<and> role tm = RTool \<and> kind tm = KTool \<and>
              anchorId tm = Some tgt \<and>
              view (c_sessionId cl) (snd (onTool ev e (cl, st))) =
                Some (pre @ x # tm #
                      \<lparr>msg_id = Suc (nextMsgId st), role = RAssistant, kind = KText, content = [],
                       summary = None, anchorId = None, createdAt = clock st\<rparr> # post) \<and>
              view (c_sessionId cl) (snd (onToken tok (onTool ev e (cl, st)))) =
                Some (pre @ x # tm #
                      \<lparr>msg_id = Suc (nextMsgId st), role = RAssistant, kind = KText, content = tok,
                       summary = None, anchorId = None, createdAt = clock st\<rparr> # post)) \<and>
           activeAssistantMessage (snd (onTool ev e (cl, st))) = Some (Suc (nextMsgId st)))
       \<and> (\<not> splits e \<longrightarrow>
           activeAssistantMessage (snd (onTool ev e (cl, st))) = activeAssistantMessage st \<and>
           toolSplit (snd (onTool ev e (cl, st))) = toolSplit st \<and>
           (\<exists>msgs'. view (c_sessionId cl) (snd (onTool ev e (cl, st))) = Some msgs' \<and>
              filter (\<lambda>m. \<not> isToolMessage m) msgs' =
              filter (\<lambda>m. \<not> isToolMessage m) (pre @ x # post)))"
proof (intro conjI impI)
  let ?sid = "c_sessionId cl"
  let ?n = "nextMsgId st"
  from str have live: "activeRequestId st = Some (c_requestId cl)" by (simp add: streaming_def)
  have d: "onTool ev e (cl, st) = (cl, toolBody ev ?sid e st)"
    using live c(1) by (simp add: onTool_def)
  {
    assume sp: "splits e"
    have sn: "splitsNow cl st (ETool e)" using sp c by (simp add: splitsNow_def)
    note se = split_event [OF str sn v fresh, of ev, simplified]
    from se(2) obtain tm where tm: "msg_id tm = ?n" "role tm = RTool" "kind tm = KTool"
      "anchorId tm = Some tgt"
      "view ?sid (snd (onTool ev e (cl, st))) = Some (pre @ x # tm # contMsg (Suc ?n) (clock st) # post)"
      unfolding splitShape_def by auto
    let ?st2 = "snd (onTool ev e (cl, st))"
    have cs: "onTool ev e (cl, st) = (cl, ?st2)" using d by simp
    from tokens_deliver [OF se(3), of ev "[tok]"] obtain ss where
      t1: "deliverAll ev [EToken tok] (cl, ?st2) = (cl\<lparr>assistantText := assistantText cl @ tok\<rparr>, ?st2\<lparr>sessions := ss\<rparr>)"
      and t2: "msgsOf ?sid ss = map_option (mutate (Suc ?n) (addText tok)) (msgsOf ?sid (sessions ?st2))"
      by auto
    have f: "Suc ?n \<notin> msg_id ` set pre" "msg_id x \<noteq> Suc ?n" "Suc ?n \<notin> msg_id ` set post"
      using fresh_later [OF fresh, of "Suc ?n"] by auto
    have "mutate (Suc ?n) (addText tok) (pre @ x # tm # contMsg (Suc ?n) (clock st) # post)
        = pre @ x # tm # addText tok (contMsg (Suc ?n) (clock st)) # post"
      using f tm(1) by (simp add: mutate_Cons mutate_absent contMsg_def)
    with t2 tm(5) have "msgsOf ?sid ss = Some (pre @ x # tm # addText tok (contMsg (Suc ?n) (clock st)) # post)"
      by (simp add: view_def)
    moreover have "onToken tok (onTool ev e (cl, st)) = deliverAll ev [EToken tok] (cl, ?st2)"
      unfolding cs [symmetric] by (simp add: deliverAll_def)
    ultimately have "view ?sid (snd (onToken tok (onTool ev e (cl, st)))) =
        Some (pre @ x # tm # addText tok (contMsg (Suc ?n) (clock st)) # post)"
      unfolding t1 by (simp add: view_def)
    with tm show "\<exists>tm. msg_id tm = nextMsgId st \<and> role tm = RTool \<and> kind tm = KTool \<and>
              anchorId tm = Some tgt \<and>
              view (c_sessionId cl) (snd (onTool ev e (cl, st))) =
                Some (pre @ x # tm #
                      \<lparr>msg_id = Suc (nextMsgId st), role = RAssistant, kind = KText, content = [],
                       summary = None, anchorId = None, createdAt = clock st\<rparr> # post) \<and>
              view (c_sessionId cl) (snd (onToken tok (onTool ev e (cl, st)))) =
                Some (pre @ x # tm #
                      \<lparr>msg_id = Suc (nextMsgId st), role = RAssistant, kind = KText, content = tok,
                       summary = None, anchorId = None, createdAt = clock st\<rparr> # post)"
      by (auto simp: contMsg_def addText_def)
    from se(3) show "activeAssistantMessage (snd (onTool ev e (cl, st))) = Some (Suc (nextMsgId st))"
      by (simp add: streaming_def)
  }
  {
    assume ns: "\<not> splits e"
    from splitFrame_toolBody [OF ns, of ev ?sid st]
    show "activeAssistantMessage (snd (onTool ev e (cl, st))) = activeAssistantMessage st"
      and "toolSplit (snd (onTool ev e (cl, st))) = toolSplit st"
      unfolding d by (simp_all add: splitFrame_def)
    show "\<exists>msgs'. view (c_sessionId cl) (snd (onTool ev e (cl, st))) = Some msgs' \<and>
              filter (\<lambda>m. \<not> isToolMessage m) msgs' =
              filter (\<lambda>m. \<not> isToolMessage m) (pre @ x # post)"
    proof (cases "emits e")
      case True
      from fresh have n: "?n \<notin> msg_id ` set (pre @ x # post)" by auto
      from created_toolBody [OF c(3) v(1) n ns True, of ev]
      show ?thesis unfolding d by (auto simp: created_def othersKept_def)
    next
      case False
      from silent_toolBody [OF False, of ev ?sid st] v(1) show ?thesis unfolding d by simp
    qed
  }
qed

text \<open>
  C2, amended. Take a tool or permission event with a call id. If a tool message is already
  registered for the call id in that session, the event creates no tool message: the
  registry and the tool messages are unchanged, but for the content and summary of that one
  message. If none is registered and the event has nothing to show (a tool_call_update
  without status, content or error, an output delta with an empty chunk, an
  mcp_tool_call_end without error, an unknown type), nothing happens at all. If none is
  registered and the event has something to show, in a request that is streamed, exactly
  one new tool message is created and registered for the call id; it is anchored to the
  assistant message active at that time, unless the event is a patch_apply_end.
\<close>

theorem tool_message_dedup_C2:
  assumes e: "eventCallId e = c" "c \<noteq> []"
  shows "(\<forall>k. toolMessageMap st (toolKey (c_sessionId cl) c) = Some k \<longrightarrow>
            seen (c_sessionId cl) k st (snd (deliver ev (cl, st) e)))
       \<and> (toolMessageMap st (toolKey (c_sessionId cl) c) = None \<and> \<not> writes e \<longrightarrow>
            deliver ev (cl, st) e = (cl, st))
       \<and> (toolMessageMap st (toolKey (c_sessionId cl) c) = None \<and> writes e \<and>
          streaming cl st tgt \<and> c \<notin> toolSplit st \<and>
          toolKey (c_sessionId cl) c \<notin> handledPermission st \<and>
          view (c_sessionId cl) st = Some msgs \<and> tgt \<in> msg_id ` set msgs \<and>
          (\<forall>m\<in>set msgs. msg_id m < nextMsgId st) \<longrightarrow>
            toolMessageMap (snd (deliver ev (cl, st) e)) (toolKey (c_sessionId cl) c) =
              Some (nextMsgId st) \<and>
            (\<exists>msgs'. view (c_sessionId cl) (snd (deliver ev (cl, st) e)) = Some msgs' \<and>
               toolInserted (nextMsgId st) (if anchored e then Some tgt else None) msgs msgs'))"
proof -
  let ?sid = "c_sessionId cl"
  let ?n = "nextMsgId st"
  let ?st' = "snd (deliver ev (cl, st) e)"
  have known: "seen ?sid k st ?st'" if "toolMessageMap st (toolKey ?sid c) = Some k" for k
    using seen_deliver [of st cl e k ev] e that by simp
  have silent: "deliver ev (cl, st) e = (cl, st)"
    if a: "toolMessageMap st (toolKey ?sid c) = None \<and> \<not> writes e"
  proof (cases e)
    case (ETool te)
    with a have "\<not> emits te" by simp
    from silent_toolBody [OF this] show ?thesis using ETool by (simp add: onTool_def)
  qed (use a e in simp_all)
  have new: "toolMessageMap ?st' (toolKey ?sid c) = Some ?n \<and>
            (\<exists>msgs'. view ?sid ?st' = Some msgs' \<and>
               toolInserted ?n (if anchored e then Some tgt else None) msgs msgs')"
    if a: "toolMessageMap st (toolKey ?sid c) = None \<and> writes e \<and>
          streaming cl st tgt \<and> c \<notin> toolSplit st \<and>
          toolKey ?sid c \<notin> handledPermission st \<and>
          view ?sid st = Some msgs \<and> tgt \<in> msg_id ` set msgs \<and>
          (\<forall>m\<in>set msgs. msg_id m < nextMsgId st)"
  proof -
    from a have k: "toolMessageMap st (toolKey ?sid c) = None" and w: "writes e"
      and str: "streaming cl st tgt" and ns: "c \<notin> toolSplit st"
      and nh: "toolKey ?sid c \<notin> handledPermission st"
      and v: "view ?sid st = Some msgs" and tg: "tgt \<in> msg_id ` set msgs"
      and fresh: "\<forall>m\<in>set msgs. msg_id m < ?n"
      by simp_all
    from str have live: "activeRequestId st = Some (c_requestId cl)"
      and al: "anchorLive ?sid st" "map_option assistantMessageId (activeToolAnchor st) = Some tgt"
      by (auto simp: streaming_def anchorLive_def)
    from fresh have n: "?n \<notin> msg_id ` set msgs" by auto
    have viaSplit: "toolMessageMap ?st' (toolKey ?sid c) = Some ?n \<and>
              (\<exists>msgs'. view ?sid ?st' = Some msgs' \<and> toolInserted ?n (Some tgt) msgs msgs')"
      if sn: "splitsNow cl st e"
    proof -
      from tg have "\<exists>m\<in>set msgs. msg_id m = tgt" by auto
      from split_list_first_prop [OF this] obtain pre x post where
        sp: "msgs = pre @ x # post" "msg_id x = tgt" "\<forall>y\<in>set pre. msg_id y \<noteq> tgt" by blast
      from sp(3) have np: "tgt \<notin> msg_id ` set pre" by auto
      note se = split_event [OF str sn v [unfolded sp(1)] sp(2) np fresh [unfolded sp(1)], of ev]
      from se(2) obtain tm where tm: "msg_id tm = ?n" "role tm = RTool" "anchorId tm = Some tgt"
        "view ?sid ?st' = Some (pre @ x # tm # contMsg (Suc ?n) (clock st) # post)"
        unfolding splitShape_def by auto
      have "filter isToolMessage msgs = filter isToolMessage (pre @ [x]) @ filter isToolMessage post"
        and "filter isToolMessage (pre @ x # tm # contMsg (Suc ?n) (clock st) # post) =
          filter isToolMessage (pre @ [x]) @ tm # filter isToolMessage post"
        using tm(2) by (simp_all add: sp(1) isToolMessage_def contMsg_def)
      with tm(1,3) have "toolInserted ?n (Some tgt) msgs (pre @ x # tm # contMsg (Suc ?n) (clock st) # post)"
        unfolding toolInserted_def by blast
      with tm(4) se(6) e(1) show ?thesis by simp
    qed
    show ?thesis
    proof (cases e)
      case (EPermission p)
      with e k ns nh have "splitsNow cl st e" by (simp add: splitsNow_def)
      from viaSplit [OF this] EPermission show ?thesis by simp
    next
      case (ETool te)
      with e have c: "toolCallId te = c" by simp
      show ?thesis
      proof (cases "splits te")
        case True
        with ETool e k ns c have "splitsNow cl st e" by (simp add: splitsNow_def)
        moreover from True ETool have "anchored e" by (cases te) simp_all
        ultimately show ?thesis using viaSplit by simp
      next
        case False
        from w ETool have em: "emits te" by simp
        have d: "deliver ev (cl, st) e = (cl, toolBody ev ?sid te st)"
          using ETool live e c by (simp add: onTool_def)
        have A: "(case te of PatchApplyEnd c ok ap fl er \<Rightarrow> None
              | _ \<Rightarrow> if anchorLive ?sid st then map_option assistantMessageId (activeToolAnchor st) else None)
            = (if anchored e then Some tgt else None)"
          using al ETool by (cases te) simp_all
        from created_toolBody [OF k [folded c] v n False em, of ev]
        show ?thesis unfolding d A c by (auto simp: created_def)
      qed
    qed (use w in simp_all)
  qed
  from known silent new show ?thesis by blast
qed

section \<open>Runs of the example session\<close>

lemma exLive_closure:
  "fst (handleSend exEnv (Some (exSession ''s1'' [])) True [] exStart) = Some exClosure"
  by code_simp

lemma exLive_fields:
  "activeRequestId exLive = Some 0"
  "stopRequested exLive = False"
  "activeAssistantMessage exLive = Some 1"
  "activeToolAnchor exLive =
     Some \<lparr>a_requestId = 0, a_sessionId = ''s1'', assistantMessageId = 1, lastToolId = None\<rparr>"
  "nextMsgId exLive = 2"
  "clock exLive = 0"
  "view ''s1'' exLive = Some [exMsg 0 RUser KText ''hello'', exMsg 1 RAssistant KText []]"
  by code_simp+

lemma exLive_unseen:
  "toolMessageMap exLive ''s1:1'' = None" "''1'' \<notin> toolSplit exLive"
  "''s1:1'' \<notin> handledPermission exLive"
  by code_simp+

lemma exLive_streaming: "streaming exClosure exLive 1"
  by (simp add: streaming_def exLive_fields exClosure_def)

text \<open>
  C4 at the failing input. A request is in flight for session s1 while session s2 is the one
  displayed. \<^verbatim>\<open>handleStop\<close> takes the session to stop from \<^verbatim>\<open>activeSession\<close>: it
  asks the provider to stop s2 and marks s2 as disconnected, and the status of s1, whose
  request was cancelled, stays as it was.
\<close>

theorem stop_from_other_session_C4:
  "generatingSessionId exTwoLive = Some ''s1''
   \<and> activeRequestId exTwoLive = Some (c_requestId exClosure)
   \<and> statusOf ''s1'' (handleStop (Some (exSession ''s2'' [])) exTwoLive) = Some (Some ''session_active'')
   \<and> statusOf ''s2'' (handleStop (Some (exSession ''s2'' [])) exTwoLive) = Some (Some ''disconnected'')
   \<and> apiLog (handleStop (Some (exSession ''s2'' [])) exTwoLive) = [StopCodexExec ''s2'']"
  by code_simp

text \<open>
  C5 at the failing input. After the deltas "abc", a tool call and the delta
  "OC_ACTION: search foo", the last assistant message holds the directive line alone. On
  completion the line is stripped from it, but no command is run: the arguments are looked
  for in the text of all deltas of the request, "abcOC_ACTION: search foo", where no line
  starts with the marker.
\<close>

theorem directive_after_split_C5:
  "view ''s1'' (snd exSplitRun) =
     Some [exMsg 0 RUser KText ''hello'', exMsg 1 RAssistant KText ''abc'',
           (exMsg 2 RTool KTool ''Tool'')\<lparr>anchorId := Some 1\<rparr>,
           exMsg 3 RAssistant KText ''OC_ACTION: search foo'']
   \<and> view ''s1'' (finishStream exEnv ''oc-1'' (ExecReturned ''out'' [] (Some ''0'')) exSplitRun) =
     Some [exMsg 0 RUser KText ''hello'', exMsg 1 RAssistant KText ''abc'',
           (exMsg 2 RTool KTool ''Tool'')\<lparr>anchorId := Some 1\<rparr>,
           exMsg 3 RAssistant KText []]
   \<and> apiLog (finishStream exEnv ''oc-1'' (ExecReturned ''out'' [] (Some ''0'')) exSplitRun) = []"
  by code_simp

lemma finishStream_directive:
  assumes "streamError cl = None" "fst (extractOcAction (assistantText cl)) = Some args" "args \<noteq> []"
  shows "finishStream ev oc outcome (cl, st) =
     resetRequest (c_requestId cl)
       (runOcCommand (c_sessionId cl) args oc outcome
          (splitTool (c_sessionId cl) oc
             (st\<lparr>sessions :=
                  updateMessageContent (c_sessionId cl) (currentTarget cl st)
                    (Fn (\<lambda>prevContent. snd (extractOcAction prevContent))) (clock st)
                    (sessions st)\<rparr>)))"
  using assms by (simp add: finishStream_def Let_def)

lemma resetRequest_frame:
  "sessions (resetRequest r st) = sessions st" "apiLog (resetRequest r st) = apiLog st"
  by (simp_all add: resetRequest_def Let_def split: option.splits)

lemma runOcCommand_present:
  assumes k: "toolMessageMap s (toolKey sid c) = Some k" and a: "args \<noteq> []"
    and o: "out \<noteq> []" "err \<noteq> []"
  shows "view sid (runOcCommand sid args c (ExecReturned out err (Some n)) s) =
           map_option
             (\<lambda>l. mutate k (setContent (Fn (appendLine (''exit: '' @ n))))
                   (mutate k (setContent (Fn (appendLine err)))
                      (mutate k (setContent (Fn (appendLine out)))
                         (mutate k (setContent (Fn (appendLine (''$ oc '' @ joinArgs args)))) l))))
             (view sid s)"
    and "apiLog (runOcCommand sid args c (ExecReturned out err (Some n)) s) =
           apiLog s @ [ExecOcCommand args]"
proof -
  let ?s1 = "appendTool sid c (''$ oc '' @ joinArgs args) s"
  let ?s2 = "?s1\<lparr>apiLog := apiLog ?s1 @ [ExecOcCommand args]\<rparr>"
  let ?s3 = "appendTool sid c out ?s2"
  let ?s4 = "appendTool sid c err ?s3"
  let ?s5 = "appendTool sid c (''exit: '' @ n) ?s4"
  have r: "runOcCommand sid args c (ExecReturned out err (Some n)) s = ?s5"
    using a o by (simp add: runOcCommand_def Let_def)
  note e1 = appendTool_present [OF k, of "''$ oc '' @ joinArgs args"]
  have k2: "toolMessageMap ?s2 (toolKey sid c) = Some k" unfolding e1 using k by simp
  note e3 = appendTool_present [OF k2, of out]
  have k3: "toolMessageMap ?s3 (toolKey sid c) = Some k" unfolding e3 using k2 by simp
  note e4 = appendTool_present [OF k3, of err]
  have k4: "toolMessageMap ?s4 (toolKey sid c) = Some k" unfolding e4 using k3 by simp
  note e5 = appendTool_present [OF k4, of "''exit: '' @ n"]
  have v1: "view sid ?s2 = map_option (mutate k (setContent (Fn (appendLine (''$ oc '' @ joinArgs args))))) (view sid s)"
    unfolding e1 by (simp add: view_def msgsOf_updateMessageContent)
  have v3: "view sid ?s3 = map_option (mutate k (setContent (Fn (appendLine out)))) (view sid ?s2)"
    unfolding e3 by (simp add: view_def msgsOf_updateMessageContent)
  have v4: "view sid ?s4 = map_option (mutate k (setContent (Fn (appendLine err)))) (view sid ?s3)"
    unfolding e4 by (simp add: view_def msgsOf_updateMessageContent)
  have v5: "view sid ?s5 = map_option (mutate k (setContent (Fn (appendLine (''exit: '' @ n))))) (view sid ?s4)"
    unfolding e5 by (simp add: view_def msgsOf_updateMessageContent)
  show "view sid (runOcCommand sid args c (ExecReturned out err (Some n)) s) =
           map_option
             (\<lambda>l. mutate k (setContent (Fn (appendLine (''exit: '' @ n))))
                   (mutate k (setContent (Fn (appendLine err)))
                      (mutate k (setContent (Fn (appendLine out)))
                         (mutate k (setContent (Fn (appendLine (''$ oc '' @ joinArgs args)))) l))))
             (view sid s)"
    unfolding r v5 v4 v3 v1 by (cases "view sid s") simp_all
  have al: "apiLog (appendTool sid c t x) = apiLog x" for t x
    by (simp add: appendTool_def apiLog_appendToolLike)
  have "apiLog ?s2 = apiLog s @ [ExecOcCommand args]" by (simp add: al)
  moreover have "apiLog ?s5 = apiLog ?s2" by (simp only: al)
  ultimately show "apiLog (runOcCommand sid args c (ExecReturned out err (Some n)) s) =
           apiLog s @ [ExecOcCommand args]"
    unfolding r by simp
qed

lemma exDirectiveRun_fields:
  "streamError (fst exDirectiveRun) = None"
  "fst (extractOcAction (assistantText (fst exDirectiveRun))) = Some [Some ''search'', Some ''foo'']"
  "c_sessionId (fst exDirectiveRun) = ''s1''"
  by code_simp+

lemma exDirectiveSplit_fields:
  "toolMessageMap exDirectiveSplit (toolKey ''s1'' ''oc-1'') = Some 2"
  "view ''s1'' exDirectiveSplit =
     Some [exMsg 0 RUser KText ''hello'', exMsg 1 RAssistant KText ''Done.'',
           (exMsg 2 RTool KTool [])\<lparr>anchorId := Some 1\<rparr>, exMsg 3 RAssistant KText []]"
  "apiLog exDirectiveSplit = []"
  by code_simp+

text \<open>
  The example of the specification: without a split, the finished text
  "Done.\nOC_ACTION: search foo" leaves "Done." and a tool message with the command line,
  stdout, stderr and exit code after it.
\<close>

lemma directive_example:
  "view ''s1'' (finishStream exEnv ''oc-1'' (ExecReturned ''out'' ''err'' (Some ''0'')) exDirectiveRun) =
     Some [exMsg 0 RUser KText ''hello'', exMsg 1 RAssistant KText ''Done.'',
           (exMsg 2 RTool KTool (''$ oc search foo'' @ [CHR 0x0A] @ ''out'' @ [CHR 0x0A] @ ''err''
              @ [CHR 0x0A] @ ''exit: 0''))\<lparr>anchorId := Some 1\<rparr>,
           exMsg 3 RAssistant KText []]
   \<and> apiLog (finishStream exEnv ''oc-1'' (ExecReturned ''out'' ''err'' (Some ''0'')) exDirectiveRun) =
     [ExecOcCommand [Some ''search'', Some ''foo'']]"
proof -
  let ?args = "[Some ''search'', Some ''foo'']"
  have c: "exDirectiveRun = (fst exDirectiveRun, snd exDirectiveRun)" by simp
  have f: "finishStream exEnv ''oc-1'' (ExecReturned ''out'' ''err'' (Some ''0'')) exDirectiveRun =
      resetRequest (c_requestId (fst exDirectiveRun))
        (runOcCommand ''s1'' ?args ''oc-1'' (ExecReturned ''out'' ''err'' (Some ''0'')) exDirectiveSplit)"
    by (subst c, subst finishStream_directive [OF exDirectiveRun_fields(1,2)])
       (simp_all add: exDirectiveRun_fields(3) exDirectiveSplit_def)
  note r = runOcCommand_present [OF exDirectiveSplit_fields(1), of ?args "''out''" "''err''" "''0''"]
  have j: "joinArgs ?args = ''search foo''" by (simp add: joinArgs_def)
  have "view ''s1'' (finishStream exEnv ''oc-1'' (ExecReturned ''out'' ''err'' (Some ''0'')) exDirectiveRun) =
      view ''s1'' (runOcCommand ''s1'' ?args ''oc-1'' (ExecReturned ''out'' ''err'' (Some ''0'')) exDirectiveSplit)"
    unfolding f by (simp add: view_def resetRequest_frame)
  also have "\<dots> = Some [exMsg 0 RUser KText ''hello'', exMsg 1 RAssistant KText ''Done.'',
           (exMsg 2 RTool KTool (''$ oc search foo'' @ [CHR 0x0A] @ ''out'' @ [CHR 0x0A] @ ''err''
              @ [CHR 0x0A] @ ''exit: 0''))\<lparr>anchorId := Some 1\<rparr>,
           exMsg 3 RAssistant KText []]"
    using r(1) unfolding exDirectiveSplit_fields(2) j
    by (simp add: mutate_Cons exMsg_def setContent_def applyUpdater_def appendLine_def)
  finally have v: "view ''s1'' (finishStream exEnv ''oc-1'' (ExecReturned ''out'' ''err'' (Some ''0'')) exDirectiveRun) =
      Some [exMsg 0 RUser KText ''hello'', exMsg 1 RAssistant KText ''Done.'',
           (exMsg 2 RTool KTool (''$ oc search foo'' @ [CHR 0x0A] @ ''out'' @ [CHR 0x0A] @ ''err''
              @ [CHR 0x0A] @ ''exit: 0''))\<lparr>anchorId := Some 1\<rparr>,
           exMsg 3 RAssistant KText []]" .
  have "apiLog (finishStream exEnv ''oc-1'' (ExecReturned ''out'' ''err'' (Some ''0'')) exDirectiveRun) =
      [ExecOcCommand ?args]"
    unfolding f using r(2) by (simp add: resetRequest_frame exDirectiveSplit_fields(3))
  with v show ?thesis by simp
qed

text \<open>
  C1 as stated fails: a tool event that is not of a splitting type comes between two
  deltas, and both deltas end up in the same assistant message.
\<close>

theorem deltas_without_split_counterexample:
  "view ''s1''
     (snd (deliverAll exEnv
             [EToken ''a'', ETool (ExecCommandEnd ''1'' (Some ''0'') []), EToken ''b'']
             (exClosure, exLive))) =
   Some [exMsg 0 RUser KText ''hello'', exMsg 1 RAssistant KText ''ab'',
         (exMsg 2 RTool KTool ''exit: 0'')\<lparr>anchorId := Some 1\<rparr>]"
  by code_simp

text \<open>
  C2 as stated fails: an mcp_tool_call_end event without error, for a call id that was
  never seen, creates no tool message.
\<close>

theorem silent_tool_event_counterexample:
  "toolMessageMap exLive ''s1:m1'' = None
   \<and> view ''s1'' (snd (deliver exEnv (exClosure, exLive) (ETool (McpToolCallEnd ''m1'' [])))) =
     Some [exMsg 0 RUser KText ''hello'', exMsg 1 RAssistant KText []]"
  by code_simp

text \<open>
  C3 as stated fails: a tool_call_update that is the first event of its call id creates the
  tool message but does not split, the target stays the placeholder message.
\<close>

theorem update_first_counterexample:
  "view ''s1''
     (snd (onTool exEnv (ToolCallUpdate ''t1'' (exUpdate\<lparr>u_status := ''running''\<rparr>))
             (exClosure, exLive))) =
     Some [exMsg 0 RUser KText ''hello'', exMsg 1 RAssistant KText [],
           (exMsg 2 RTool KTool ''status: running'')\<lparr>anchorId := Some 1\<rparr>]
   \<and> activeAssistantMessage
     (snd (onTool exEnv (ToolCallUpdate ''t1'' (exUpdate\<lparr>u_status := ''running''\<rparr>))
             (exClosure, exLive))) = Some 1"
  by code_simp

section \<open>Stopping\<close>

lemma reqFrame_sessions [simp]: "reqFrame (st\<lparr>sessions := ss\<rparr>) = reqFrame st"
  by (simp add: reqFrame_def)

lemma reqFrame_appendTool: "reqFrame (appendTool sid c line st) = reqFrame st"
  by (simp add: appendTool_def appendToolLikeMessage_def ensureToolMessage_def createMessage_def
      reqFrame_def Let_def split: option.splits)

lemma reqFrame_updateToolSummary: "reqFrame (updateToolSummary sid c sm kd st) = reqFrame st"
  by (simp add: updateToolSummary_def ensureToolMessage_def createMessage_def
      reqFrame_def Let_def split: option.splits)

lemma reqFrame_splitTool: "reqFrame (splitTool sid c st) = reqFrame st"
  by (simp add: splitTool_def splitAssistantForTool_def ensureToolMessage_def createMessage_def
      collapseThought_def reqFrame_def Let_def split: option.splits)

lemma reqFrame_applyBlock: "reqFrame (applyBlock sid c st b) = reqFrame st"
  by (cases b) (simp_all add: applyBlock_def reqFrame_appendTool)

lemma reqFrame_foldBlocks: "reqFrame (foldl (applyBlock sid c) st bs) = reqFrame st"
  by (induction bs arbitrary: st) (simp_all add: reqFrame_applyBlock)

lemma reqFrame_toolBody: "reqFrame (toolBody ev sid e st) = reqFrame st"
  by (cases e)
     (simp_all add: Let_def reqFrame_appendTool reqFrame_splitTool reqFrame_updateToolSummary
        reqFrame_foldBlocks)

lemma reqFrame_onTool: "reqFrame (snd (onTool ev e (cl, st))) = reqFrame st"
  by (simp add: onTool_def reqFrame_toolBody)

lemma reqFrame_onToken: "reqFrame (snd (onToken tok (cl, st))) = reqFrame st"
  by (simp add: onToken_def reqFrame_def)

lemma reqFrame_onError: "reqFrame (snd (onError e (cl, st))) = reqFrame st"
  by (simp add: onError_def)

lemma reqFrame_onStatus: "reqFrame (snd (onStatus s (cl, st))) = reqFrame st"
  by (simp add: onStatus_def reqFrame_def Let_def)

lemma reqFrame_onReasoning: "reqFrame (snd (onReasoning d (cl, st))) = reqFrame st"
  by (simp add: onReasoning_def createMessage_def reqFrame_def Let_def split: option.splits)

lemma reqFrame_onPermission: "reqFrame (snd (onPermission ev p (cl, st))) = reqFrame st"
proof -
  have a: "reqFrame (snd (appendToolLikeMessage sid c line KTool None s)) = reqFrame s" for sid c line s
    using reqFrame_appendTool [of sid c line s] by (simp add: appendTool_def)
  have b: "reqFrame (snd (splitAssistantForTool sid c KTool s)) = reqFrame s" for sid c s
    using reqFrame_splitTool [of sid c s] by (simp add: splitTool_def)
  have c: "reqFrame (setDialog d s) = reqFrame s" for d s
    by (simp add: setDialog_def reqFrame_def)
  have d: "reqFrame (s\<lparr>handledPermission := H\<rparr>) = reqFrame s" for s H
    by (simp add: reqFrame_def)
  show ?thesis by (simp add: onPermission_def Let_def a b c d)
qed

lemma reqFrame_deliver: "reqFrame (snd (deliver ev (cl, st) e)) = reqFrame st"
  by (cases e)
     (simp_all add: reqFrame_onToken reqFrame_onReasoning reqFrame_onStatus reqFrame_onPermission
        reqFrame_onTool reqFrame_onError)

lemma notCurrent_frame: "reqFrame st' = reqFrame st \<Longrightarrow> notCurrent r st \<Longrightarrow> notCurrent r st'"
  by (simp add: notCurrent_def reqFrame_def)

lemma notCurrent_resetRequest: "notCurrent r st \<Longrightarrow> notCurrent r (resetRequest q st)"
  by (simp add: notCurrent_def resetRequest_def Let_def split: option.splits)

lemma reqFrame_runOcCommand: "reqFrame (runOcCommand sid args c outcome st) = reqFrame st"
proof -
  have g: "reqFrame (s\<lparr>apiLog := l\<rparr>) = reqFrame s" for s l
    by (simp add: reqFrame_def)
  show ?thesis
    by (cases outcome)
       (simp_all add: runOcCommand_def Let_def reqFrame_appendTool g split: option.splits)
qed

lemma notCurrent_finishStream: "notCurrent r st \<Longrightarrow> notCurrent r (finishStream ev oc outcome (cl, st))"
proof -
  assume n: "notCurrent r st"
  have b: "reqFrame (s\<lparr>nextMsgId := k\<rparr>) = reqFrame s" for s k
    by (simp add: reqFrame_def)
  show ?thesis
  proof (cases "streamError cl")
    case None
    have "notCurrent r s \<Longrightarrow> notCurrent r (runOcCommand sid args c outcome (splitTool sid c s))" for s sid args c
      by (rule notCurrent_frame [of _ s]) (simp add: reqFrame_runOcCommand reqFrame_splitTool)
    moreover have "notCurrent r (st\<lparr>sessions := ss\<rparr>)" for ss
      using n by (simp add: notCurrent_def)
    ultimately show ?thesis using None
      by (auto simp: finishStream_def Let_def intro!: notCurrent_resetRequest split: option.splits)
  next
    case (Some e)
    have "notCurrent r (st\<lparr>nextMsgId := k, sessions := ss\<rparr>)" for k ss
      using n by (simp add: notCurrent_def)
    then show ?thesis using Some
      by (simp add: finishStream_def Let_def createMessage_def notCurrent_resetRequest)
  qed
qed

lemma notCurrent_handleSend: "notCurrent r st \<Longrightarrow> notCurrent r (snd (handleSend ev act ready ctx st))"
  by (simp add: handleSend_def createMessage_def notCurrent_def Let_def split: option.splits)

lemma notCurrent_handleStop: "r < nextReqId st \<Longrightarrow> notCurrent r (handleStop act st)"
  by (simp add: handleStop_def notCurrent_def Let_def split: option.splits)

lemma notCurrent_step: "notCurrent r st \<Longrightarrow> notCurrent r (step ev st a)"
proof (cases a)
  case (ASend act ready ctx)
  assume "notCurrent r st"
  then show ?thesis unfolding ASend step.simps by (rule notCurrent_handleSend)
next
  case (ASetInput v)
  assume "notCurrent r st"
  then show ?thesis unfolding ASetInput step.simps by (simp add: notCurrent_def)
next
  case (AStop act)
  assume "notCurrent r st"
  then have "r < nextReqId st" by (simp add: notCurrent_def)
  then show ?thesis unfolding AStop step.simps by (rule notCurrent_handleStop)
next
  case (AEvent cl e)
  assume "notCurrent r st"
  then show ?thesis unfolding AEvent step.simps by (rule notCurrent_frame [OF reqFrame_deliver])
next
  case (AFinish cl oc outcome)
  assume "notCurrent r st"
  then show ?thesis unfolding AFinish step.simps by (rule notCurrent_finishStream)
next
  case (AResolveDialog b)
  assume "notCurrent r st"
  then show ?thesis unfolding AResolveDialog step.simps
    by (simp add: notCurrent_def resolveDialog_def split: option.splits)
next
  case ACloseDialog
  assume "notCurrent r st"
  then show ?thesis unfolding ACloseDialog step.simps by (simp add: notCurrent_def closeDialog_def)
next
  case (ATick n)
  assume "notCurrent r st"
  then show ?thesis unfolding ATick step.simps by (simp add: notCurrent_def)
next
  case (AStore f)
  assume "notCurrent r st"
  then show ?thesis unfolding AStore step.simps by (simp add: notCurrent_def)
qed

lemma notCurrent_run: "notCurrent r st \<Longrightarrow> notCurrent r (run ev acts st)"
  unfolding run_def by (induction acts arbitrary: st) (simp_all add: notCurrent_step)

text \<open>
  The first half of C4 holds: after \<^verbatim>\<open>handleStop\<close>, whatever happens next (another
  send included), a content or reasoning delta of a request whose id was given out before
  the stop changes nothing.
\<close>

lemma deltas_dropped_after_stop:
  assumes "c_requestId cl < nextReqId st"
  shows "onToken tok (cl, run ev acts (handleStop act st)) = (cl, run ev acts (handleStop act st))"
    and "onReasoning d (cl, run ev acts (handleStop act st)) = (cl, run ev acts (handleStop act st))"
proof -
  have "notCurrent (c_requestId cl) (run ev acts (handleStop act st))"
    by (rule notCurrent_run [OF notCurrent_handleStop [OF assms]])
  then have n: "activeRequestId (run ev acts (handleStop act st)) \<noteq> Some (c_requestId cl)"
    by (simp add: notCurrent_def)
  show "onToken tok (cl, run ev acts (handleStop act st)) = (cl, run ev acts (handleStop act st))"
    using n by (simp add: onToken_def)
  show "onReasoning d (cl, run ev acts (handleStop act st)) = (cl, run ev acts (handleStop act st))"
    using n by (simp add: onReasoning_def)
qed

lemma status_updateSession:
  "map_option status (find (\<lambda>s. sess_id s = sid)
       (updateSession sid (\<lambda>x. x\<lparr>status := v\<rparr>) t ss))
   = map_option (\<lambda>x. v) (map_option status (find (\<lambda>s. sess_id s = sid) ss))"
proof -
  let ?f = "\<lambda>s. if sess_id s \<noteq> sid then s else (s\<lparr>status := v\<rparr>)\<lparr>updatedAt := t\<rparr>"
  have f: "find (\<lambda>s. sess_id s = sid) (map ?f ss) = map_option ?f (find (\<lambda>s. sess_id s = sid) ss)"
    by (rule find_map_pres) simp
  show ?thesis
  proof (cases "find (\<lambda>s. sess_id s = sid) ss")
    case None
    with f show ?thesis by (simp add: updateSession_def)
  next
    case (Some a)
    then have "sess_id a = sid" by (auto simp: find_Some_iff)
    with f Some show ?thesis by (simp add: updateSession_def)
  qed
qed

text \<open>When the session displayed is the one stopped, its status becomes disconnected.\<close>

lemma handleStop_active_session:
  assumes "sess_id act \<noteq> []"
  shows "statusOf (sess_id act) (handleStop (Some act) st) =
           map_option (\<lambda>x. Some ''disconnected'') (statusOf (sess_id act) st)"
  using assms by (simp add: handleStop_def statusOf_def Let_def status_updateSession)

section \<open>The amended claims at the example session\<close>

lemma exLive_view:
  "view (c_sessionId exClosure) exLive =
     Some ([exMsg 0 RUser KText ''hello''] @ exMsg 1 RAssistant KText [] # [])"
  by (simp add: exLive_fields exClosure_def)

lemma exLive_fresh:
  "\<forall>m\<in>set ([exMsg 0 RUser KText ''hello''] @ exMsg 1 RAssistant KText [] # []). msg_id m < nextMsgId exLive"
  by (simp add: exLive_fields exMsg_def)

theorem deltas_accumulate_C1_witness:
  "view ''s1'' (snd (deliverAll exEnv (map EToken [''Hi'']) (exClosure, exLive))) =
     Some [exMsg 0 RUser KText ''hello'', exMsg 1 RAssistant KText ''Hi'']
   \<and> (\<exists>tm. msg_id tm = 2 \<and> role tm = RTool \<and> anchorId tm = Some 1 \<and>
         view ''s1''
           (snd (deliverAll exEnv
                   (map EToken [''Hi''] @ ETool (ExecCommandBegin ''1'' ''ls'' []) #
                    map EToken ['' there''])
                   (exClosure, exLive))) =
         Some [exMsg 0 RUser KText ''hello'', exMsg 1 RAssistant KText ''Hi'', tm,
               exMsg 3 RAssistant KText '' there''])"
proof -
  have sn: "splitsNow exClosure exLive (ETool (ExecCommandBegin ''1'' ''ls'' []))"
    by (simp add: splitsNow_def exLive_unseen toolKey_def exClosure_def)
  have i: "msg_id (exMsg 1 RAssistant KText []) = 1"
    "1 \<notin> msg_id ` set [exMsg 0 RUser KText ''hello'']" "1 \<notin> msg_id ` set []"
    by (simp_all add: exMsg_def)
  from deltas_accumulate_C1 [OF exLive_streaming exLive_view i exLive_fresh,
      of exEnv "[''Hi'']" "ETool (ExecCommandBegin ''1'' ''ls'' [])" "['' there'']"] sn
  show ?thesis
    by (simp add: exLive_fields exMsg_def exClosure_def)
qed

theorem tool_split_C3_witness:
  "(\<exists>tm. msg_id tm = 2 \<and> role tm = RTool \<and> kind tm = KTool \<and> anchorId tm = Some 1 \<and>
      view ''s1'' (snd (onTool exEnv (ExecCommandBegin ''1'' ''ls'' []) (exClosure, exLive))) =
        Some [exMsg 0 RUser KText ''hello'', exMsg 1 RAssistant KText [], tm,
              exMsg 3 RAssistant KText []] \<and>
      view ''s1''
        (snd (onToken ''ok'' (onTool exEnv (ExecCommandBegin ''1'' ''ls'' []) (exClosure, exLive)))) =
        Some [exMsg 0 RUser KText ''hello'', exMsg 1 RAssistant KText [], tm,
              exMsg 3 RAssistant KText ''ok''])
   \<and> activeAssistantMessage
        (snd (onTool exEnv (ExecCommandBegin ''1'' ''ls'' []) (exClosure, exLive))) = Some 3"
proof -
  have c: "toolCallId (ExecCommandBegin ''1'' ''ls'' []) \<noteq> []"
    "toolCallId (ExecCommandBegin ''1'' ''ls'' []) \<notin> toolSplit exLive"
    "toolMessageMap exLive (toolKey (c_sessionId exClosure) (toolCallId (ExecCommandBegin ''1'' ''ls'' []))) = None"
    by (simp_all add: exLive_unseen toolKey_def exClosure_def)
  have i: "msg_id (exMsg 1 RAssistant KText []) = 1"
    "1 \<notin> msg_id ` set [exMsg 0 RUser KText ''hello'']"
    by (simp_all add: exMsg_def)
  from tool_split_C3 [OF exLive_streaming c exLive_view i exLive_fresh, of exEnv "''ok''"]
  show ?thesis
    by (simp add: exLive_fields exMsg_def exClosure_def)
qed

theorem tool_message_dedup_C2_witness:
  "toolMessageMap
     (snd (deliver exEnv (exClosure, exLive) (ETool (ExecCommandEnd ''1'' (Some ''0'') []))))
     ''s1:1'' = Some 2
   \<and> (\<exists>msgs'. view ''s1''
          (snd (deliver exEnv (exClosure, exLive) (ETool (ExecCommandEnd ''1'' (Some ''0'') []))))
          = Some msgs' \<and>
        toolInserted 2 (Some 1) [exMsg 0 RUser KText ''hello'', exMsg 1 RAssistant KText []] msgs')"
proof -
  have e: "eventCallId (ETool (ExecCommandEnd ''1'' (Some ''0'') [])) = ''1''" "''1'' \<noteq> []"
    by simp_all
  have h: "toolMessageMap exLive (toolKey (c_sessionId exClosure) ''1'') = None \<and>
      writes (ETool (ExecCommandEnd ''1'' (Some ''0'') [])) \<and>
      streaming exClosure exLive 1 \<and> ''1'' \<notin> toolSplit exLive \<and>
      toolKey (c_sessionId exClosure) ''1'' \<notin> handledPermission exLive \<and>
      view (c_sessionId exClosure) exLive =
        Some [exMsg 0 RUser KText ''hello'', exMsg 1 RAssistant KText []] \<and>
      1 \<in> msg_id ` set [exMsg 0 RUser KText ''hello'', exMsg 1 RAssistant KText []] \<and>
      (\<forall>m\<in>set [exMsg 0 RUser KText ''hello'', exMsg 1 RAssistant KText []].
          msg_id m < nextMsgId exLive)"
    using exLive_streaming
    by (simp add: exLive_unseen exLive_fields toolKey_def exClosure_def exMsg_def)
  from tool_message_dedup_C2 [OF e, of exLive exClosure exEnv 1
      "[exMsg 0 RUser KText ''hello'', exMsg 1 RAssistant KText []]"] h
  show ?thesis
    by (simp add: exLive_fields toolKey_def exClosure_def)
qed

end
